theory Spec2Isabelle
  imports Main
begin

section \<open>Strings\<close>

text \<open>
  Locators (URLs), hrefs and titles are Python strings; they are modelled as
  \<^typ>\<open>string\<close>. Two string operations of Python are used by the crawler:
  \<^verbatim>\<open>s.startswith(p)\<close> and the substring test \<^verbatim>\<open>sub in s\<close>.
\<close>

type_synonym url = string
type_synonym title = string

definition startswith :: "string \<Rightarrow> string \<Rightarrow> bool" where
  "startswith s p = (take (length p) s = p)"

fun str_in :: "string \<Rightarrow> string \<Rightarrow> bool" where
  "str_in sub [] = (sub = [])"
| "str_in sub (c # cs) = (startswith (c # cs) sub \<or> str_in sub cs)"

section \<open>Link validity (\<^verbatim>\<open>WikiCrawler.is_valid_wiki_link\<close>)\<close>

text \<open>
  \<^verbatim>\<open>
  def is_valid_wiki_link(self, href):
      if not href.startswith('/wiki/'):
          return False
      if ':' in href:
          namespaces = ['File:', 'Wikipedia:', 'Help:', 'Template:',
                        'Category:', 'Portal:', 'Talk:', 'Special:']
          for namespace in namespaces:
              if namespace in href:
                  return False
      if any(x in href for x in ['#', '(disambiguation)']):
          return False
      return True
  \<close>
  The loop over the namespaces returns at the first one found anywhere in the href,
  which is \<^const>\<open>list_ex\<close> over the list.
\<close>

definition namespaces :: "string list" where
  "namespaces = [''File:'', ''Wikipedia:'', ''Help:'', ''Template:'',
                 ''Category:'', ''Portal:'', ''Talk:'', ''Special:'']"

definition is_valid_wiki_link :: "string \<Rightarrow> bool" where
  "is_valid_wiki_link href =
     (if \<not> startswith href ''/wiki/'' then False
      else if str_in '':'' href \<and> list_ex (\<lambda>namespace. str_in namespace href) namespaces
        then False
      else if list_ex (\<lambda>x. str_in x href) [''#'', ''(disambiguation)''] then False
      else True)"

text \<open>The page name of an href is what follows the six characters of \<^verbatim>\<open>/wiki/\<close>.\<close>

definition page_name :: "string \<Rightarrow> string" where
  "page_name href = drop 6 href"

section \<open>\<^verbatim>\<open>WikiCrawler.get_title_from_url\<close>\<close>

text \<open>
  \<^verbatim>\<open>
  def get_title_from_url(self, url):
      try:
          parsed = urlparse(url)
          path = parsed.path
          title = path.split("/")[-1].replace("_", " ")
          title = unquote(title)
          return title
      except:
          return url
  \<close>
  \<^verbatim>\<open>urlparse\<close> and \<^verbatim>\<open>unquote\<close> are functions of the Python library; they are
  parameters here: \<open>urlparse_path url\<close> is the path component, \<open>None\<close> when
  \<^verbatim>\<open>urlparse\<close> raises, and \<open>unquote\<close> is the percent-decoding.
\<close>

text \<open>\<^verbatim>\<open>path.split("/")[-1]\<close>: what follows the last slash.\<close>

definition last_segment :: "string \<Rightarrow> string" where
  "last_segment p = rev (takeWhile (\<lambda>c. c \<noteq> CHR ''/'') (rev p))"

text \<open>\<^verbatim>\<open>.replace("_", " ")\<close>\<close>

definition underscores_to_spaces :: "string \<Rightarrow> string" where
  "underscores_to_spaces t = map (\<lambda>c. if c = CHR ''_'' then CHR '' '' else c) t"

definition get_title_from_url :: "(url \<Rightarrow> string option) \<Rightarrow> (string \<Rightarrow> string) \<Rightarrow> url \<Rightarrow> title" where
  "get_title_from_url urlparse_path unquote url =
     (case urlparse_path url of
        None \<Rightarrow> url
      | Some p \<Rightarrow> unquote (underscores_to_spaces (last_segment p)))"

section \<open>\<^verbatim>\<open>WikiCrawler.extract_first_link\<close>\<close>

text \<open>
  The extractor reads the page through BeautifulSoup. The model takes what the queries
  of the source return as the parsed page, and keeps the logic of the source on it.

  A previous sibling of a link is a text node (\<^verbatim>\<open>NavigableString\<close>) or a tag, of
  which the scan reads \<^verbatim>\<open>.string\<close> only (\<open>None\<close> when the tag has no single string).
\<close>

datatype sibling = NavigableString string | Tag "string option"

text \<open>
  \<^verbatim>\<open>
  prev_text = ""
  prev_sibling = current_element.previous_sibling
  while prev_sibling:
      if hasattr(prev_sibling, 'string') and prev_sibling.string:
          prev_text = prev_sibling.string + prev_text
      elif isinstance(prev_sibling, str):
          prev_text = prev_sibling + prev_text
      prev_sibling = prev_sibling.previous_sibling
  \<close>
  The siblings are listed as the scan meets them, the nearest first. An empty text node
  is false in the loop condition and ends the scan; a tag is always true.
\<close>

fun prev_text_of :: "sibling list \<Rightarrow> string" where
  "prev_text_of [] = []"
| "prev_text_of (NavigableString t # rest) = (if t = [] then [] else prev_text_of rest @ t)"
| "prev_text_of (Tag None # rest) = prev_text_of rest"
| "prev_text_of (Tag (Some t) # rest) = prev_text_of rest @ t"

text \<open>A link of \<^verbatim>\<open>find_all('a', href=True)\<close>: its href and its previous siblings.\<close>

record link =
  link_href :: string
  previous_siblings :: "sibling list"

text \<open>
  \<^verbatim>\<open>open_count = prev_text.count('('); close_count = prev_text.count(')')\<close> and the
  test \<^verbatim>\<open>open_count > close_count\<close>.
\<close>

definition in_parentheses :: "link \<Rightarrow> bool" where
  "in_parentheses l =
     (let prev_text = prev_text_of (previous_siblings l);
          open_count = count_list prev_text CHR ''('';
          close_count = count_list prev_text CHR '')''
      in open_count > close_count)"

text \<open>
  A paragraph: whether \<^verbatim>\<open>paragraph.text.strip()\<close> is empty, the class lists
  \<^verbatim>\<open>parent.get('class', [])\<close> of its parents, and its links in document order.
\<close>

record paragraph_tag =
  blank :: bool
  parent_classes :: "string list list"
  links :: "link list"

definition non_main_classes :: "string list" where
  "non_main_classes = [''infobox'', ''sidebar'', ''metadata'', ''navbox'',
                       ''vertical-navbox'', ''hatnote'']"

definition should_skip :: "paragraph_tag \<Rightarrow> bool" where
  "should_skip p =
     list_ex (\<lambda>classes. list_ex (\<lambda>cls. cls \<in> set non_main_classes) classes)
       (parent_classes p)"

text \<open>
  The content container \<^verbatim>\<open>div#mw-content-text\<close>: the three paragraph queries of
  lines 109 to 115, the links of the list items of line 184 (one list per item) and
  the links of all the paragraphs (line 197, the third query again).
\<close>

record content =
  select_paragraphs :: "paragraph_tag list"
  direct_paragraphs :: "paragraph_tag list"
  all_paragraphs :: "paragraph_tag list"
  list_items :: "link list list"

text \<open>
  A parsed page: the text of \<^verbatim>\<open>h1#firstHeading\<close> and the content container, each
  \<open>None\<close> when \<^verbatim>\<open>find\<close> returns \<^verbatim>\<open>None\<close>. An attempt either raises inside the
  \<^verbatim>\<open>try\<close> block or parses a page.
\<close>

record page =
  title_element :: "string option"
  content_div :: "content option"

datatype response = Raised | Parsed page

text \<open>The inner loop of lines 145 to 178 over the links of one paragraph.\<close>

fun scan_links :: "link list \<Rightarrow> string option" where
  "scan_links [] = None"
| "scan_links (l # ls) =
     (if \<not> is_valid_wiki_link (link_href l) then scan_links ls
      else if in_parentheses l then scan_links ls
      else Some (link_href l))"

text \<open>The loop of lines 119 to 178 over the paragraphs.\<close>

fun scan_paragraphs :: "paragraph_tag list \<Rightarrow> string option" where
  "scan_paragraphs [] = None"
| "scan_paragraphs (p # ps) =
     (if blank p then scan_paragraphs ps
      else if should_skip p then scan_paragraphs ps
      else if links p = [] then scan_paragraphs ps
      else (case scan_links (links p) of
              Some h \<Rightarrow> Some h
            | None \<Rightarrow> scan_paragraphs ps))"

text \<open>
  The two fallback loops (lines 184 to 193 and 197 to 206): the first link with a valid
  href, with no test of the text before it.
\<close>

fun first_valid :: "link list list \<Rightarrow> string option" where
  "first_valid [] = None"
| "first_valid (ls # rest) =
     (case find (\<lambda>l. is_valid_wiki_link (link_href l)) ls of
        Some l \<Rightarrow> Some (link_href l)
      | None \<Rightarrow> first_valid rest)"

text \<open>The choice of the paragraphs to scan, lines 109 to 116.\<close>

definition paragraphs_of :: "content \<Rightarrow> paragraph_tag list" where
  "paragraphs_of c =
     (if select_paragraphs c \<noteq> [] then select_paragraphs c
      else if direct_paragraphs c \<noteq> [] then direct_paragraphs c
      else all_paragraphs c)"

text \<open>The three stages on a content container; the result is the href found.\<close>

definition find_href :: "content \<Rightarrow> string option" where
  "find_href c =
     (case scan_paragraphs (paragraphs_of c) of
        Some h \<Rightarrow> Some h
      | None \<Rightarrow>
          (case first_valid (list_items c) of
             Some h \<Rightarrow> Some h
           | None \<Rightarrow> first_valid (map links (all_paragraphs c))))"

text \<open>
  What a call returns, \<^verbatim>\<open>(full_url, title)\<close> or \<^verbatim>\<open>(None, title)\<close>, with the
  number of attempts made and the seconds passed to \<^verbatim>\<open>time.sleep\<close>, in order.
\<close>

record extraction =
  ex_next :: "url option"
  ex_title :: title
  ex_attempts :: nat
  ex_sleeps :: "nat list"

definition max_retries :: nat where
  "max_retries = 3"

text \<open>
  The retry loop of lines 80 to 220. \<open>fetch i\<close> is what attempt number \<open>i\<close> (from 0)
  meets; \<open>urljoin\<close> is \<^verbatim>\<open>urljoin(self.base_url, href)\<close> and \<open>title_from_url\<close> is
  \<^verbatim>\<open>self.get_title_from_url\<close>.
\<close>

function extract_first_link_loop ::
  "(string \<Rightarrow> url) \<Rightarrow> (url \<Rightarrow> title) \<Rightarrow> (nat \<Rightarrow> response) \<Rightarrow> url \<Rightarrow> nat \<Rightarrow> nat list \<Rightarrow> extraction" where
  "extract_first_link_loop urljoin title_from_url fetch url retry_count slept =
     (if retry_count < max_retries then
        (case fetch retry_count of
           Raised \<Rightarrow>
             extract_first_link_loop urljoin title_from_url fetch url
               (retry_count + 1) (slept @ [2])
         | Parsed pg \<Rightarrow>
             let title = (case title_element pg of
                            Some t \<Rightarrow> t
                          | None \<Rightarrow> title_from_url url) in
             (case content_div pg of
                None \<Rightarrow>
                  extract_first_link_loop urljoin title_from_url fetch url
                    (retry_count + 1) (slept @ [1])
              | Some c \<Rightarrow>
                  \<lparr>ex_next = map_option urljoin (find_href c), ex_title = title,
                   ex_attempts = retry_count + 1, ex_sleeps = slept\<rparr>))
      else \<lparr>ex_next = None, ex_title = title_from_url url,
            ex_attempts = retry_count, ex_sleeps = slept\<rparr>)"
  by pat_completeness auto
termination
  by (relation "measure (\<lambda>(urljoin, title_from_url, fetch, url, retry_count, slept).
                  max_retries - retry_count)") auto

declare extract_first_link_loop.simps [simp del]

definition extract_first_link ::
  "(string \<Rightarrow> url) \<Rightarrow> (url \<Rightarrow> title) \<Rightarrow> (nat \<Rightarrow> response) \<Rightarrow> url \<Rightarrow> extraction" where
  "extract_first_link urljoin title_from_url fetch url =
     extract_first_link_loop urljoin title_from_url fetch url 0 []"



section \<open>The extractor as seen by the walkers\<close>

text \<open>
  The three walkers call \<^verbatim>\<open>self.extract_first_link(current_url)\<close> once per loop
  iteration and get back the pair \<^verbatim>\<open>(next_url, current_title)\<close>. The page behind a
  locator may change between two fetches, so the extractor is a parameter indexed by the
  value of the \<^verbatim>\<open>steps\<close> counter at the call (each iteration that continues
  increments the counter, so the index names the call). \<^verbatim>\<open>get_random_article\<close>
  and \<^verbatim>\<open>get_title_from_url\<close> are parameters of the walkers too.
\<close>

type_synonym extractor = "int \<Rightarrow> url \<Rightarrow> url option \<times> title"

text \<open>\<^verbatim>\<open>if not start_url: start_url = self.get_random_article()\<close>\<close>

definition start_of :: "url \<Rightarrow> url option \<Rightarrow> url" where
  "start_of random_article start_url =
     (case start_url of
        None \<Rightarrow> random_article
      | Some u \<Rightarrow> if u = [] then random_article else u)"

text \<open>
  \<^verbatim>\<open>path.index(x)\<close>: the position of the first occurrence, \<open>None\<close> where Python
  raises \<^verbatim>\<open>ValueError\<close>.
\<close>

fun path_index :: "url list \<Rightarrow> url \<Rightarrow> nat option" where
  "path_index [] x = None"
| "path_index (y # ys) x = (if y = x then Some 0 else map_option Suc (path_index ys x))"

text \<open>
  The walkers return no outcome tag; the tag below names the exit the loop took, after
  the message the source prints there: \<^verbatim>\<open>Found Philosophy\<close> or
  \<^verbatim>\<open>Reached target depth\<close> (\<open>Completed\<close>), \<^verbatim>\<open>Dead end!\<close>,
  \<^verbatim>\<open>Loop detected\<close> (with the list \<^verbatim>\<open>loop\<close> the source builds, when it builds
  one), the \<^verbatim>\<open>while\<close> condition turning false (\<open>StepLimitReached\<close>),
  \<^verbatim>\<open>(already in database)\<close> for the next article (\<open>AlreadyKnown\<close>) and
  \<^verbatim>\<open>already in database, skipping\<close> for the start article (\<open>StartAlreadyKnown\<close>).
\<close>

datatype outcome =
    Completed
  | DeadEnd
  | LoopDetected "url list option"
  | StepLimitReached
  | AlreadyKnown
  | StartAlreadyKnown

fun cycle_start :: "outcome \<Rightarrow> url option" where
  "cycle_start (LoopDetected (Some (x # xs))) = Some x"
| "cycle_start _ = None"

section \<open>\<^verbatim>\<open>WikiCrawler.follow_path\<close>\<close>

text \<open>
  The local variables of the loop. The writes to \<^verbatim>\<open>self.graph\<close>,
  \<^verbatim>\<open>self.visited\<close> and \<^verbatim>\<open>self.paths\<close> are never read by the walkers and are
  left out.
\<close>

record walker =
  current_url :: url
  path :: "url list"
  titles :: "url \<rightharpoonup> title"
  steps :: int

text \<open>
  One iteration of \<^verbatim>\<open>while steps < max_steps\<close> (wiki\_core.py, lines 234 to 276):
  \<open>Inl\<close> is a \<^verbatim>\<open>break\<close>, \<open>Inr\<close> the state at the next test of the loop
  condition. The loop test of this walker is on the current locator, after it was
  appended: \<^verbatim>\<open>if current_url in path[:-1]\<close>, with
  \<^verbatim>\<open>loop = path[path.index(current_url):]\<close>.
\<close>

definition follow_path_step :: "extractor \<Rightarrow> walker \<Rightarrow> (outcome \<times> walker) + walker" where
  "follow_path_step ext w =
     (case ext (steps w) (current_url w) of (next_url, current_title) \<Rightarrow>
        let w1 = w\<lparr>titles := (titles w)(current_url w \<mapsto> current_title)\<rparr> in
        if current_title = ''Philosophy'' then Inl (Completed, w1)
        else if current_url w \<in> set (butlast (path w)) then
          Inl (LoopDetected
                 (map_option (\<lambda>loop_index. drop loop_index (path w))
                    (path_index (path w) (current_url w))), w1)
        else (case next_url of
                None \<Rightarrow> Inl (DeadEnd, w1)
              | Some n \<Rightarrow>
                  if n = [] then Inl (DeadEnd, w1)
                  else Inr (w1\<lparr>current_url := n, path := path w @ [n],
                                steps := steps w + 1\<rparr>)))"

lemma follow_path_step_steps:
  "follow_path_step ext w = Inr w' \<Longrightarrow> steps w' = steps w + 1"
  by (auto simp: follow_path_step_def Let_def split: prod.splits if_splits option.splits)

function follow_path_loop :: "extractor \<Rightarrow> int \<Rightarrow> walker \<Rightarrow> outcome \<times> walker" where
  "follow_path_loop ext max_steps w =
     (if steps w < max_steps then
        (case follow_path_step ext w of
           Inl r \<Rightarrow> r
         | Inr w' \<Rightarrow> follow_path_loop ext max_steps w')
      else (StepLimitReached, w))"
  by pat_completeness auto
termination
  by (relation "measure (\<lambda>(ext, max_steps, w). nat (max_steps - steps w))")
     (auto dest: follow_path_step_steps)

declare follow_path_loop.simps [simp del]

text \<open>\<^verbatim>\<open>return path, steps, titles\<close>, with the exit taken.\<close>

record fp_result =
  fp_path :: "url list"
  fp_steps :: int
  fp_titles :: "url \<rightharpoonup> title"
  fp_outcome :: outcome

definition follow_path :: "extractor \<Rightarrow> url \<Rightarrow> url option \<Rightarrow> int \<Rightarrow> fp_result" where
  "follow_path ext random_article start_url max_steps =
     (let start = start_of random_article start_url;
          w0 = \<lparr>current_url = start, path = [start], titles = Map.empty, steps = 0\<rparr>
      in case follow_path_loop ext max_steps w0 of (oc, w) \<Rightarrow>
           \<lparr>fp_path = path w, fp_steps = steps w, fp_titles = titles w, fp_outcome = oc\<rparr>)"

section \<open>\<^verbatim>\<open>GeneralWikiCrawler.follow_general_path\<close>\<close>

record general_walker = walker +
  visited_in_path :: "url set"

text \<open>
  One iteration of the loop of parallel\_wiki\_crawler.py, lines 48 to 87. The test of
  the target depth comes first and returns from the function; the dead end and the loop
  \<^verbatim>\<open>break\<close>. The loop test is on the next locator, before it is appended:
  \<^verbatim>\<open>if next_url in visited_in_path\<close>, with
  \<^verbatim>\<open>loop = path[loop_index:] + [next_url]\<close> when \<^verbatim>\<open>next_url in path\<close>.
\<close>

definition follow_general_path_step ::
  "extractor \<Rightarrow> int \<Rightarrow> general_walker \<Rightarrow> (outcome \<times> general_walker) + general_walker" where
  "follow_general_path_step ext target_depth w =
     (case ext (steps w) (current_url w) of (next_url, current_title) \<Rightarrow>
        let w1 = w\<lparr>titles := (titles w)(current_url w \<mapsto> current_title)\<rparr> in
        if steps w \<ge> target_depth - 1 then Inl (Completed, w1)
        else (case next_url of
                None \<Rightarrow> Inl (DeadEnd, w1)
              | Some n \<Rightarrow>
                  if n = [] then Inl (DeadEnd, w1)
                  else if n \<in> visited_in_path w then
                    Inl (LoopDetected
                           (map_option (\<lambda>loop_index. drop loop_index (path w) @ [n])
                              (path_index (path w) n)), w1)
                  else Inr (w1\<lparr>current_url := n, path := path w @ [n],
                                steps := steps w + 1,
                                visited_in_path := insert n (visited_in_path w)\<rparr>)))"

lemma follow_general_path_step_steps:
  "follow_general_path_step ext target_depth w = Inr w' \<Longrightarrow> steps w' = steps w + 1"
  by (auto simp: follow_general_path_step_def Let_def
           split: prod.splits if_splits option.splits)

function follow_general_path_loop ::
  "extractor \<Rightarrow> int \<Rightarrow> int \<Rightarrow> general_walker \<Rightarrow> outcome \<times> general_walker" where
  "follow_general_path_loop ext target_depth max_steps w =
     (if steps w < max_steps then
        (case follow_general_path_step ext target_depth w of
           Inl r \<Rightarrow> r
         | Inr w' \<Rightarrow> follow_general_path_loop ext target_depth max_steps w')
      else (StepLimitReached, w))"
  by pat_completeness auto
termination
  by (relation "measure (\<lambda>(ext, target_depth, max_steps, w). nat (max_steps - steps w))")
     (auto dest: follow_general_path_step_steps)

declare follow_general_path_loop.simps [simp del]

text \<open>
  \<^verbatim>\<open>return path, titles, True\<close> at the target depth, and
  \<^verbatim>\<open>return path, titles, (steps >= self.target_depth - 1)\<close> after the loop. The
  counter at the exit is kept beside them.
\<close>

record gp_result =
  gp_path :: "url list"
  gp_titles :: "url \<rightharpoonup> title"
  gp_reached_depth :: bool
  gp_steps :: int
  gp_outcome :: outcome

definition follow_general_path ::
  "extractor \<Rightarrow> url \<Rightarrow> int \<Rightarrow> int \<Rightarrow> url option \<Rightarrow> gp_result" where
  "follow_general_path ext random_article target_depth max_steps start_url =
     (let start = start_of random_article start_url;
          w0 = \<lparr>current_url = start, path = [start], titles = Map.empty, steps = 0,
                visited_in_path = {start}\<rparr>
      in case follow_general_path_loop ext target_depth max_steps w0 of (oc, w) \<Rightarrow>
           \<lparr>gp_path = path w, gp_titles = titles w,
            gp_reached_depth = (if oc = Completed then True else steps w \<ge> target_depth - 1),
            gp_steps = steps w, gp_outcome = oc\<rparr>)"

section \<open>\<^verbatim>\<open>DeepWikiCrawler.crawl_deeply\<close>\<close>

text \<open>
  \<^verbatim>\<open>visited_global\<close> is \<^verbatim>\<open>None\<close> or the set object the caller passed; the walker
  adds to that object, so it is part of the loop state.
\<close>

record deep_walker = general_walker +
  visited_articles :: "title set"
  visited_global :: "title set option"

text \<open>\<^verbatim>\<open>visited_global is not None and t in visited_global\<close>\<close>

definition in_global :: "title set option \<Rightarrow> title \<Rightarrow> bool" where
  "in_global vg t = (case vg of None \<Rightarrow> False | Some g \<Rightarrow> t \<in> g)"

text \<open>\<^verbatim>\<open>if visited_global is not None: visited_global.add(t)\<close>\<close>

definition add_global :: "title set option \<Rightarrow> title \<Rightarrow> title set option" where
  "add_global vg t = (case vg of None \<Rightarrow> None | Some g \<Rightarrow> Some (insert t g))"

text \<open>
  One iteration of the loop of large\_wiki\_graph\_crawler.py, lines 66 to 113: dead
  end, then the loop test on the next locator, then the test of the global set on the
  title of the next locator, which appends the next locator and stops.
\<close>

definition crawl_deeply_step ::
  "extractor \<Rightarrow> (url \<Rightarrow> title) \<Rightarrow> deep_walker \<Rightarrow> (outcome \<times> deep_walker) + deep_walker" where
  "crawl_deeply_step ext title_from_url w =
     (case ext (steps w) (current_url w) of (next_url, current_title) \<Rightarrow>
        let w1 = w\<lparr>titles := (titles w)(current_url w \<mapsto> current_title)\<rparr> in
        (case next_url of
           None \<Rightarrow> Inl (DeadEnd, w1)
         | Some n \<Rightarrow>
             if n = [] then Inl (DeadEnd, w1)
             else let next_title = title_from_url n in
               if n \<in> visited_in_path w then
                 Inl (LoopDetected
                        (map_option (\<lambda>loop_index. drop loop_index (path w) @ [n])
                           (path_index (path w) n)), w1)
               else if in_global (visited_global w) next_title then
                 Inl (AlreadyKnown,
                      w1\<lparr>path := path w @ [n],
                         titles := (titles w1)(n \<mapsto> next_title)\<rparr>)
               else Inr (w1\<lparr>current_url := n, path := path w @ [n],
                             steps := steps w + 1,
                             visited_in_path := insert n (visited_in_path w),
                             visited_articles := insert next_title (visited_articles w),
                             visited_global := add_global (visited_global w) next_title\<rparr>)))"

lemma crawl_deeply_step_steps:
  "crawl_deeply_step ext title_from_url w = Inr w' \<Longrightarrow> steps w' = steps w + 1"
  by (auto simp: crawl_deeply_step_def Let_def split: prod.splits if_splits option.splits)

function crawl_deeply_loop ::
  "extractor \<Rightarrow> (url \<Rightarrow> title) \<Rightarrow> int \<Rightarrow> deep_walker \<Rightarrow> outcome \<times> deep_walker" where
  "crawl_deeply_loop ext title_from_url max_steps w =
     (if steps w < max_steps then
        (case crawl_deeply_step ext title_from_url w of
           Inl r \<Rightarrow> r
         | Inr w' \<Rightarrow> crawl_deeply_loop ext title_from_url max_steps w')
      else (StepLimitReached, w))"
  by pat_completeness auto
termination
  by (relation "measure (\<lambda>(ext, title_from_url, max_steps, w). nat (max_steps - steps w))")
     (auto dest: crawl_deeply_step_steps)

declare crawl_deeply_loop.simps [simp del]

text \<open>
  The state before the loop (lines 45 to 50) and the early return when the title of the
  start locator is in the global set (lines 57 to 59); otherwise the start title is
  added to both sets (lines 62 to 64) and the loop runs.
\<close>

definition crawl_deeply_init :: "url \<Rightarrow> title set option \<Rightarrow> deep_walker" where
  "crawl_deeply_init start vg =
     \<lparr>current_url = start, path = [start], titles = Map.empty, steps = 0,
      visited_in_path = {start}, visited_articles = {}, visited_global = vg\<rparr>"

definition crawl_deeply_entered :: "(url \<Rightarrow> title) \<Rightarrow> url \<Rightarrow> title set option \<Rightarrow> deep_walker" where
  "crawl_deeply_entered title_from_url start vg =
     (crawl_deeply_init start vg)
       \<lparr>visited_articles := {title_from_url start},
        visited_global := add_global vg (title_from_url start)\<rparr>"

text \<open>
  \<^verbatim>\<open>return path, titles, visited_articles\<close>, with the exit taken, the counter at the
  exit and the final content of the set object that was passed.
\<close>

record dc_result =
  dc_path :: "url list"
  dc_titles :: "url \<rightharpoonup> title"
  dc_visited_articles :: "title set"
  dc_steps :: int
  dc_outcome :: outcome
  dc_visited_global :: "title set option"

definition dc_finish :: "outcome \<times> deep_walker \<Rightarrow> dc_result" where
  "dc_finish r =
     (case r of (oc, w) \<Rightarrow>
        \<lparr>dc_path = path w, dc_titles = titles w, dc_visited_articles = visited_articles w,
         dc_steps = steps w, dc_outcome = oc, dc_visited_global = visited_global w\<rparr>)"

definition crawl_deeply ::
  "extractor \<Rightarrow> (url \<Rightarrow> title) \<Rightarrow> url \<Rightarrow> int \<Rightarrow> url option \<Rightarrow> title set option \<Rightarrow> dc_result" where
  "crawl_deeply ext title_from_url random_article max_steps start_url vg =
     (let start = start_of random_article start_url;
          start_title = title_from_url start
      in if in_global vg start_title then
           dc_finish (StartAlreadyKnown, crawl_deeply_init start vg)
         else dc_finish (crawl_deeply_loop ext title_from_url max_steps
                           (crawl_deeply_entered title_from_url start vg)))"

text \<open>
  The iterations of a deep walk: the states at which the loop condition is tested,
  from the state before the loop on.
\<close>

inductive crawl_deeply_visits ::
  "extractor \<Rightarrow> (url \<Rightarrow> title) \<Rightarrow> int \<Rightarrow> url \<Rightarrow> title set option \<Rightarrow> deep_walker \<Rightarrow> bool"
  for ext title_from_url max_steps start vg where
  visits_first:
    "\<not> in_global vg (title_from_url start) \<Longrightarrow>
     crawl_deeply_visits ext title_from_url max_steps start vg
       (crawl_deeply_entered title_from_url start vg)"
| visits_next:
    "crawl_deeply_visits ext title_from_url max_steps start vg w \<Longrightarrow>
     steps w < max_steps \<Longrightarrow>
     crawl_deeply_step ext title_from_url w = Inr w' \<Longrightarrow>
     crawl_deeply_visits ext title_from_url max_steps start vg w'"

text \<open>
  The step count the controllers report for a finished walk is
  \<^verbatim>\<open>"steps": len(path) - 1\<close> (\<^verbatim>\<open>crawl_article\<close> of both controllers).
\<close>

definition reported_steps :: "url list \<Rightarrow> int" where
  "reported_steps p = int (length p) - 1"

section \<open>Properties of walks\<close>

text \<open>
  The invariant of the two loops that test the next locator before appending it: the
  set \<^verbatim>\<open>visited_in_path\<close> holds the locators of the path, no locator is in the path
  twice, and the current locator is the last one of the path.
\<close>

definition walker_inv :: "'a general_walker_scheme \<Rightarrow> bool" where
  "walker_inv w = (visited_in_path w = set (path w) \<and> distinct (path w)
                   \<and> path w \<noteq> [] \<and> last (path w) = current_url w)"

text \<open>
  What holds at an exit with outcome \<open>oc\<close>, path \<open>p\<close> and counter \<open>n\<close>: no locator is
  in the path twice and, when a loop was detected, the next link \<open>x\<close> of the last
  article of the path is in the path at position \<open>i\<close>, its first occurrence, the list
  \<^verbatim>\<open>loop\<close> is the path from there on followed by \<open>x\<close>, so that the cycle starts at
  \<open>x\<close>, and \<open>x\<close> is in the path once.
\<close>

definition loop_exit_ok :: "extractor \<Rightarrow> outcome \<Rightarrow> url list \<Rightarrow> int \<Rightarrow> bool" where
  "loop_exit_ok ext oc p n =
     (distinct p \<and>
      (\<forall>lp. oc = LoopDetected lp \<longrightarrow>
         (\<exists>x i. fst (ext n (last p)) = Some x \<and> path_index p x = Some i
                \<and> lp = Some (drop i p @ [x]) \<and> cycle_start oc = Some x
                \<and> count_list p x = 1)))"

text \<open>
  The invariant of a deep walk that was given the set \<open>g0\<close>: the set object still
  holds every title of \<open>g0\<close>, and no locator of the path has its title in \<open>g0\<close>.
\<close>

definition deep_inv :: "(url \<Rightarrow> title) \<Rightarrow> title set \<Rightarrow> deep_walker \<Rightarrow> bool" where
  "deep_inv gt g0 w =
     (walker_inv w \<and> (\<exists>g. visited_global w = Some g \<and> g0 \<subseteq> g)
      \<and> (\<forall>u \<in> set (path w). gt u \<notin> g0))"

text \<open>
  A first-link chain that closes a cycle, \<open>X \<rightarrow> Y \<rightarrow> Z \<rightarrow> X\<close>, with page titles \<open>x\<close>,
  \<open>y\<close> and \<open>z\<close>; every other locator has no link.
\<close>

definition scenario_C :: extractor where
  "scenario_C i u =
     (if u = ''X'' then (Some ''Y'', ''x'')
      else if u = ''Y'' then (Some ''Z'', ''y'')
      else if u = ''Z'' then (Some ''X'', ''z'')
      else (None, ''?''))"

section \<open>The crawl controllers\<close>

text \<open>
  \<^verbatim>\<open>ParallelWikiController.crawl_article\<close> and
  \<^verbatim>\<open>LargeWikiGraphController.crawl_article\<close> run on the threads of a pool, next to
  the thread that monitors the size of the database. What the threads share is the stop
  flag (a \<^verbatim>\<open>threading.Event\<close>), the set of known titles (\<^verbatim>\<open>mapped_articles\<close>,
  \<^verbatim>\<open>visited_articles\<close>, read and written under a lock) and the database. A run is an
  interleaving of atomic actions on that shared state: a test of the flag, a block
  under the lock, a walk (which touches local data only), a call of
  \<^verbatim>\<open>db.store_path\<close>.
\<close>

datatype kind = ParallelWiki | LargeWikiGraph

text \<open>
  Where a job stands in \<^verbatim>\<open>crawl_article\<close>, with its local variables: submitted to
  the pool and not yet running; past the first test of the flag; holding its start
  locator (and, in the large crawl, its copy of the set); back from the walk with the
  path, the titles and the titles visited in the walk; after the merge of the large crawl;
  past the second test of the flag; after the call of \<^verbatim>\<open>store_path\<close> of the parallel
  crawl, before its merge; returned.
\<close>

datatype phase =
    Accepted "string option"
  | Started "string option"
  | Ready url "title set"
  | Crawled "url list" "url \<rightharpoonup> title" "title set"
  | Merged "url list" "url \<rightharpoonup> title"
  | Storing "url list" "url \<rightharpoonup> title"
  | Stored "url list" "url \<rightharpoonup> title"
  | Finished

text \<open>
  The shared state. \<open>stored\<close> lists the calls of \<^verbatim>\<open>db.store_path\<close>, each with the job
  that made it and the path it passed.
\<close>

record controller =
  stop_flag :: bool
  visited :: "title set"
  stored :: "(nat \<times> url list) list"
  jobs :: "nat \<rightharpoonup> phase"

definition initial :: controller where
  "initial = \<lparr>stop_flag = False, visited = {}, stored = [], jobs = Map.empty\<rparr>"

text \<open>
  What a run meets outside the controller: the pages each job fetches, the answers of
  \<^verbatim>\<open>get_random_article\<close> (the start of a job, and the retries of lines 161 to 168 of
  the parallel crawl), \<^verbatim>\<open>get_title_from_url\<close>, \<^verbatim>\<open>str.strip\<close>, whether
  \<^verbatim>\<open>connect_to_database\<close> returns a connection, and the configured limits.
\<close>

record environment =
  ext_of :: "nat \<Rightarrow> extractor"
  title_of :: "url \<Rightarrow> title"
  random_of :: "nat \<Rightarrow> url"
  retries_of :: "nat \<Rightarrow> url list"
  strip :: "string \<Rightarrow> string"
  db_ok :: "nat \<Rightarrow> bool"
  cfg_max_steps :: int
  cfg_target_depth :: int

text \<open>Lines 145 to 150 of parallel\_wiki\_crawler.py.\<close>

definition start_url_of :: "(string \<Rightarrow> string) \<Rightarrow> string \<Rightarrow> url" where
  "start_url_of strp article_or_url =
     (if startswith article_or_url ''http'' then article_or_url
      else ''https://en.wikipedia.org/wiki/''
           @ map (\<lambda>c. if c = CHR '' '' then CHR ''_'' else c) (strp article_or_url))"

text \<open>
  Lines 156 to 168, under the lock: a start article that was mapped already is replaced
  by the first of at most five random articles that was not (and kept when none is).
\<close>

definition pick_start :: "(url \<Rightarrow> title) \<Rightarrow> title set \<Rightarrow> url list \<Rightarrow> url \<Rightarrow> url" where
  "pick_start title_from_url mapped randoms start_url =
     (if title_from_url start_url \<in> mapped then
        (case find (\<lambda>new_url. title_from_url new_url \<notin> mapped) (take 5 randoms) of
           Some new_url \<Rightarrow> new_url
         | None \<Rightarrow> start_url)
      else start_url)"

text \<open>
  Lines 187 to 190: the titles
  \<^verbatim>\<open>titles.get(url, crawler.get_title_from_url(url))\<close> of the locators of the path.
\<close>

definition path_titles :: "(url \<Rightarrow> title) \<Rightarrow> (url \<rightharpoonup> title) \<Rightarrow> url list \<Rightarrow> title list" where
  "path_titles title_from_url ts p =
     map (\<lambda>u. case ts u of Some t \<Rightarrow> t | None \<Rightarrow> title_from_url u) p"

text \<open>A job leaves its phase for the next one.\<close>

definition move :: "nat \<Rightarrow> phase \<Rightarrow> controller \<Rightarrow> controller" where
  "move j ph s = s\<lparr>jobs := (jobs s)(j \<mapsto> ph)\<rparr>"

text \<open>
  The next atomic action of job \<open>j\<close> of the large crawl
  (large\_wiki\_graph\_crawler.py, lines 198 to 250): the test of the flag, the start
  locator and the copy of the set, the deep walk on the copy, the merge
  \<^verbatim>\<open>self.visited_articles.update(visited_in_crawl)\<close>, the second test of the flag,
  and the call of \<^verbatim>\<open>store_path\<close> when the database is reached.
\<close>

fun large_step :: "environment \<Rightarrow> nat \<Rightarrow> phase \<Rightarrow> controller \<Rightarrow> controller option" where
  "large_step env j (Accepted a) s =
     Some (if stop_flag s then move j Finished s else move j (Started a) s)"
| "large_step env j (Started a) s =
     Some (move j (Ready (start_of (random_of env j) a) (visited s)) s)"
| "large_step env j (Ready u snapshot) s =
     (let r = crawl_deeply (ext_of env j) (title_of env) (random_of env j)
                (cfg_max_steps env) (Some u) (Some snapshot)
      in Some (move j (Crawled (dc_path r) (dc_titles r) (dc_visited_articles r)) s))"
| "large_step env j (Crawled p ts visited_in_crawl) s =
     Some (move j (Merged p ts) (s\<lparr>visited := visited s \<union> visited_in_crawl\<rparr>))"
| "large_step env j (Merged p ts) s =
     Some (if stop_flag s then move j Finished s else move j (Storing p ts) s)"
| "large_step env j (Storing p ts) s =
     Some (if db_ok env j then move j Finished (s\<lparr>stored := stored s @ [(j, p)]\<rparr>)
           else move j Finished s)"
| "large_step env j (Stored p ts) s = None"
| "large_step env j Finished s = None"

text \<open>
  The next atomic action of job \<open>j\<close> of the parallel crawl
  (parallel\_wiki\_crawler.py, lines 136 to 206): the test of the flag, the choice of
  the start under the lock (a job without an article raises and ends), the walk, the
  second test of the flag, the call of \<^verbatim>\<open>store_path\<close> when the database is
  reached, and then the merge \<^verbatim>\<open>self.mapped_articles.add(title)\<close> for the titles of
  the path.
\<close>

fun parallel_step :: "environment \<Rightarrow> nat \<Rightarrow> phase \<Rightarrow> controller \<Rightarrow> controller option" where
  "parallel_step env j (Accepted a) s =
     Some (if stop_flag s then move j Finished s else move j (Started a) s)"
| "parallel_step env j (Started None) s = Some (move j Finished s)"
| "parallel_step env j (Started (Some article_or_url)) s =
     Some (move j (Ready (pick_start (title_of env) (visited s) (retries_of env j)
                            (start_url_of (strip env) article_or_url)) {}) s)"
| "parallel_step env j (Ready u unused) s =
     (let r = follow_general_path (ext_of env j) (random_of env j) (cfg_target_depth env)
                (cfg_max_steps env) (Some u)
      in Some (move j (Crawled (gp_path r) (gp_titles r) {}) s))"
| "parallel_step env j (Crawled p ts unused) s =
     Some (if stop_flag s then move j Finished s else move j (Storing p ts) s)"
| "parallel_step env j (Storing p ts) s =
     Some (if db_ok env j then move j (Stored p ts) (s\<lparr>stored := stored s @ [(j, p)]\<rparr>)
           else move j Finished s)"
| "parallel_step env j (Stored p ts) s =
     Some (move j Finished (s\<lparr>visited := visited s \<union> set (path_titles (title_of env) ts p)\<rparr>))"
| "parallel_step env j (Merged p ts) s = None"
| "parallel_step env j Finished s = None"

text \<open>
  The events of a run: the titles loaded from the database are added to the set
  (\<^verbatim>\<open>load_existing_articles\<close>, \<^verbatim>\<open>load_mapped_articles\<close>); the monitor or an
  interrupt sets the flag (\<^verbatim>\<open>self.stop_flag.set()\<close>); a job is submitted to the pool
  under a fresh number; a job takes its next action. An event that cannot happen in
  the state gives \<open>None\<close>.
\<close>

datatype event = Seed "title list" | SetFlag | Submit nat "string option" | Step nat

fun fire :: "kind \<Rightarrow> environment \<Rightarrow> event \<Rightarrow> controller \<Rightarrow> controller option" where
  "fire k env (Seed ts) s = Some (s\<lparr>visited := visited s \<union> set ts\<rparr>)"
| "fire k env SetFlag s = Some (s\<lparr>stop_flag := True\<rparr>)"
| "fire k env (Submit j a) s =
     (case jobs s j of
        None \<Rightarrow> Some (move j (Accepted a) s)
      | Some ph \<Rightarrow> None)"
| "fire k env (Step j) s =
     (case jobs s j of
        None \<Rightarrow> None
      | Some ph \<Rightarrow>
          (case k of
             ParallelWiki \<Rightarrow> parallel_step env j ph s
           | LargeWikiGraph \<Rightarrow> large_step env j ph s))"

fun run :: "kind \<Rightarrow> environment \<Rightarrow> event list \<Rightarrow> controller \<Rightarrow> controller option" where
  "run k env [] s = Some s"
| "run k env (e # es) s =
     (case fire k env e s of
        None \<Rightarrow> None
      | Some s' \<Rightarrow> run k env es s')"

text \<open>The jobs for which \<^verbatim>\<open>store_path\<close> was called.\<close>

definition stored_jobs :: "controller \<Rightarrow> nat set" where
  "stored_jobs s = fst ` set (stored s)"

section \<open>Properties of runs\<close>

text \<open>
  A job that came too late: the flag is set, \<^verbatim>\<open>store_path\<close> was not called for the
  job, and the job is waiting in the pool or has returned.
\<close>

definition late :: "nat \<Rightarrow> controller \<Rightarrow> bool" where
  "late j s =
     (stop_flag s \<and> j \<notin> stored_jobs s
      \<and> (case jobs s j of
            Some (Accepted a) \<Rightarrow> True
          | Some Finished \<Rightarrow> True
          | _ \<Rightarrow> False))"

text \<open>Every job for which \<^verbatim>\<open>store_path\<close> was called was submitted.\<close>

definition known :: "controller \<Rightarrow> bool" where
  "known s = (\<forall>j. j \<in> stored_jobs s \<longrightarrow> jobs s j \<noteq> None)"

text \<open>
  The shared set is finite, and so is the set of titles a job brings back from its walk.
\<close>

definition finite_sets :: "controller \<Rightarrow> bool" where
  "finite_sets s =
     (finite (visited s)
      \<and> (\<forall>j p ts v. jobs s j = Some (Crawled p ts v) \<longrightarrow> finite v))"

text \<open>
  An environment for examples: every job reads the chain \<open>X \<rightarrow> Y \<rightarrow> Z \<rightarrow> X\<close>, titles are
  the locators themselves, and the database is reached.
\<close>

definition example_env :: environment where
  "example_env =
     \<lparr>ext_of = (\<lambda>j. scenario_C), title_of = (\<lambda>u. u), random_of = (\<lambda>j. ''R''),
      retries_of = (\<lambda>j. []), strip = (\<lambda>t. t), db_ok = (\<lambda>j. True),
      cfg_max_steps = 5, cfg_target_depth = 10\<rparr>"

section \<open>Example pages\<close>

text \<open>
  The lead paragraph \<^verbatim>\<open><p>A thing (see <a href="/wiki/B">B</a>) relates to
  <a href="/wiki/C">C</a>.</p>\<close> under \<^verbatim>\<open>div.mw-parser-output\<close>: the link to \<open>B\<close>
  has the text node before it as its only previous sibling; the link to \<open>C\<close> has the
  text node before it, the link to \<open>B\<close> (a tag whose string is \<open>B\<close>) and the first text
  node.
\<close>

definition link_B :: link where
  "link_B = \<lparr>link_href = ''/wiki/B'', previous_siblings = [NavigableString ''A thing (see '']\<rparr>"

definition link_C :: link where
  "link_C = \<lparr>link_href = ''/wiki/C'',
              previous_siblings = [NavigableString '') relates to '', Tag (Some ''B''),
                                   NavigableString ''A thing (see '']\<rparr>"

definition lead_parents :: "string list list" where
  "lead_parents = [[''mw-content-ltr'', ''mw-parser-output''], [''mw-body-content''], []]"

definition page_A :: page where
  "page_A =
     (let p = \<lparr>blank = False, parent_classes = lead_parents, links = [link_B, link_C]\<rparr>
      in \<lparr>title_element = Some ''A'',
          content_div = Some \<lparr>select_paragraphs = [p], direct_paragraphs = [],
                               all_paragraphs = [p], list_items = []\<rparr>\<rparr>)"

text \<open>
  The lead paragraph \<^verbatim>\<open><p>A thing (see <a href="/wiki/B">B</a>).</p>\<close>, the only
  paragraph of its page, which has no list.
\<close>

definition page_B_only :: page where
  "page_B_only =
     (let p = \<lparr>blank = False, parent_classes = lead_parents, links = [link_B]\<rparr>
      in \<lparr>title_element = Some ''A'',
          content_div = Some \<lparr>select_paragraphs = [p], direct_paragraphs = [],
                               all_paragraphs = [p], list_items = []\<rparr>\<rparr>)"

text \<open>
  \<^verbatim>\<open>urljoin("https://en.wikipedia.org", href)\<close> on an href that is an absolute path
  with no dot segment and no character that \<^verbatim>\<open>urljoin\<close> removes, such as
  \<^verbatim>\<open>/wiki/B\<close>: there the result is the base followed by the href. On other hrefs
  \<^verbatim>\<open>urljoin\<close> normalises the path and this function is not it; it is used on the
  example pages only.
\<close>

definition wikipedia_urljoin :: "string \<Rightarrow> url" where
  "wikipedia_urljoin h = ''https://en.wikipedia.org'' @ h"

text \<open>Every attempt parses the same page; and a title function that returns the locator.\<close>

definition always :: "page \<Rightarrow> nat \<Rightarrow> response" where
  "always pg i = Parsed pg"

definition locator_title :: "url \<Rightarrow> title" where
  "locator_title u = u"

text \<open>
  The title \<^verbatim>\<open>get_title_from_url\<close> derives from a locator that is its own path, with
  nothing to decode; and a chain \<open>/wiki/X \<rightarrow> /wiki/USA \<rightarrow> /wiki/W\<close> in which the page
  behind \<open>/wiki/USA\<close> has the title \<open>United States\<close>.
\<close>

definition segment_title :: "url \<Rightarrow> title" where
  "segment_title = get_title_from_url Some (\<lambda>t. t)"

definition known_page :: extractor where
  "known_page i u =
     (if u = ''/wiki/X'' then (Some ''/wiki/USA'', ''X'')
      else if u = ''/wiki/USA'' then (Some ''/wiki/W'', ''United States'')
      else (None, ''W''))"

section \<open>Facts about the string operations\<close>

lemma startswith_str_in: "startswith s p \<Longrightarrow> str_in p s"
  by (cases s) (auto simp: startswith_def)

lemma str_in_drop: "str_in sub (drop n s) \<Longrightarrow> str_in sub s"
proof (induction s arbitrary: n)
  case Nil
  then show ?case by simp
next
  case (Cons c cs)
  show ?case
  proof (cases n)
    case 0
    with Cons.prems show ?thesis by simp
  next
    case (Suc m)
    with Cons.prems have "str_in sub (drop m cs)" by simp
    then have "str_in sub cs" by (rule Cons.IH)
    then show ?thesis by simp
  qed
qed

lemma namespace_has_colon: "namespace \<in> set namespaces \<Longrightarrow> str_in '':'' namespace"
  by (auto simp: namespaces_def startswith_def)

lemma str_in_char: "str_in [c] s = (c \<in> set s)"
  by (induction s) (auto simp: startswith_def)

lemma str_in_set: "str_in sub s \<Longrightarrow> set sub \<subseteq> set s"
proof (induction s)
  case Nil
  then show ?case by simp
next
  case (Cons d ds)
  from Cons.prems consider "startswith (d # ds) sub" | "str_in sub ds" by auto
  then show ?case
  proof cases
    case 1
    then have "sub = take (length sub) (d # ds)" by (simp add: startswith_def)
    then have "set sub = set (take (length sub) (d # ds))" by simp
    then show ?thesis using set_take_subset [of "length sub" "d # ds"] by blast
  next
    case 2
    then show ?thesis using Cons.IH by auto
  qed
qed

lemma str_in_trans_char: "str_in [c] sub \<Longrightarrow> str_in sub s \<Longrightarrow> str_in [c] s"
  using str_in_set [of sub s] by (auto simp: str_in_char)

section \<open>Claim C5\<close>

text \<open>
  C5. Every href that the link-validity predicate accepts starts with the article
  path prefix \<^verbatim>\<open>/wiki/\<close>, has a page name that starts with none of the eight
  non-article namespaces (compared case-sensitively, character by character), and
  contains neither the fragment marker \<^verbatim>\<open>#\<close> nor \<^verbatim>\<open>(disambiguation)\<close>.
\<close>

theorem is_valid_wiki_link_only_if:
  assumes "is_valid_wiki_link href"
  shows "startswith href ''/wiki/''
       \<and> \<not> list_ex (\<lambda>namespace. startswith (page_name href) namespace) namespaces
       \<and> \<not> str_in ''#'' href
       \<and> \<not> str_in ''(disambiguation)'' href"
proof -
  from assms have pre: "startswith href ''/wiki/''"
    by (simp add: is_valid_wiki_link_def split: if_splits)
  from assms have ns: "\<not> (str_in '':'' href \<and> list_ex (\<lambda>namespace. str_in namespace href) namespaces)"
    by (simp add: is_valid_wiki_link_def split: if_splits)
  from assms have mk: "\<not> list_ex (\<lambda>x. str_in x href) [''#'', ''(disambiguation)'']"
    by (simp add: is_valid_wiki_link_def split: if_splits)
  have "\<not> startswith (page_name href) namespace" if mem: "namespace \<in> set namespaces" for namespace
  proof
    assume "startswith (page_name href) namespace"
    then have "str_in namespace (page_name href)" by (rule startswith_str_in)
    then have inh: "str_in namespace href" unfolding page_name_def by (rule str_in_drop)
    have "str_in '':'' href"
      by (rule str_in_trans_char [OF namespace_has_colon [OF mem] inh])
    with inh mem ns show False by (auto simp: list_ex_iff)
  qed
  then have "\<not> list_ex (\<lambda>namespace. startswith (page_name href) namespace) namespaces"
    by (auto simp: list_ex_iff)
  with pre mk show ?thesis by simp
qed

theorem is_valid_wiki_link_only_if_witness:
  "is_valid_wiki_link ''/wiki/Logic''
   \<and> startswith ''/wiki/Logic'' ''/wiki/''
   \<and> \<not> list_ex (\<lambda>namespace. startswith (page_name ''/wiki/Logic'') namespace) namespaces
   \<and> \<not> str_in ''#'' ''/wiki/Logic''
   \<and> \<not> str_in ''(disambiguation)'' ''/wiki/Logic''"
proof -
  have h: "is_valid_wiki_link ''/wiki/Logic''"
    by (simp add: is_valid_wiki_link_def startswith_def namespaces_def)
  show ?thesis using h is_valid_wiki_link_only_if [OF h] by simp
qed

section \<open>Invariant rules for the three loops\<close>

text \<open>
  A property \<open>I\<close> that holds before the loop and is kept by every iteration that
  continues holds at every exit: at a \<^verbatim>\<open>break\<close> or \<^verbatim>\<open>return\<close> inside the body
  and when the loop condition turns false.
\<close>

lemma follow_path_loop_rule:
  assumes init: "I w"
    and keep: "\<And>w w'. I w \<Longrightarrow> steps w < max_steps \<Longrightarrow> follow_path_step ext w = Inr w' \<Longrightarrow> I w'"
    and leave: "\<And>w r. I w \<Longrightarrow> steps w < max_steps \<Longrightarrow> follow_path_step ext w = Inl r \<Longrightarrow> Q r"
    and limit: "\<And>w. I w \<Longrightarrow> \<not> steps w < max_steps \<Longrightarrow> Q (StepLimitReached, w)"
  shows "Q (follow_path_loop ext max_steps w)"
  using init
proof (induction "nat (max_steps - steps w)" arbitrary: w rule: less_induct)
  case less
  show ?case
  proof (cases "steps w < max_steps")
    case False
    with limit [OF less.prems False] show ?thesis by (simp add: follow_path_loop.simps)
  next
    case True
    show ?thesis
    proof (cases "follow_path_step ext w")
      case (Inl r)
      with leave [OF less.prems True Inl] True show ?thesis
        by (simp add: follow_path_loop.simps)
    next
      case (Inr w')
      have "I w'" using keep [OF less.prems True Inr] .
      moreover have "nat (max_steps - steps w') < nat (max_steps - steps w)"
        using follow_path_step_steps [OF Inr] True by simp
      ultimately have "Q (follow_path_loop ext max_steps w')" by (rule less.hyps [rotated])
      then show ?thesis using True Inr by (simp add: follow_path_loop.simps)
    qed
  qed
qed

lemma follow_general_path_loop_rule:
  assumes init: "I w"
    and keep: "\<And>w w'. I w \<Longrightarrow> steps w < max_steps \<Longrightarrow> follow_general_path_step ext target_depth w = Inr w' \<Longrightarrow> I w'"
    and leave: "\<And>w r. I w \<Longrightarrow> steps w < max_steps \<Longrightarrow> follow_general_path_step ext target_depth w = Inl r \<Longrightarrow> Q r"
    and limit: "\<And>w. I w \<Longrightarrow> \<not> steps w < max_steps \<Longrightarrow> Q (StepLimitReached, w)"
  shows "Q (follow_general_path_loop ext target_depth max_steps w)"
  using init
proof (induction "nat (max_steps - steps w)" arbitrary: w rule: less_induct)
  case less
  show ?case
  proof (cases "steps w < max_steps")
    case False
    with limit [OF less.prems False] show ?thesis by (simp add: follow_general_path_loop.simps)
  next
    case True
    show ?thesis
    proof (cases "follow_general_path_step ext target_depth w")
      case (Inl r)
      with leave [OF less.prems True Inl] True show ?thesis
        by (simp add: follow_general_path_loop.simps)
    next
      case (Inr w')
      have "I w'" using keep [OF less.prems True Inr] .
      moreover have "nat (max_steps - steps w') < nat (max_steps - steps w)"
        using follow_general_path_step_steps [OF Inr] True by simp
      ultimately have "Q (follow_general_path_loop ext target_depth max_steps w')" by (rule less.hyps [rotated])
      then show ?thesis using True Inr by (simp add: follow_general_path_loop.simps)
    qed
  qed
qed

lemma crawl_deeply_loop_rule:
  assumes init: "I w"
    and keep: "\<And>w w'. I w \<Longrightarrow> steps w < max_steps \<Longrightarrow> crawl_deeply_step ext title_from_url w = Inr w' \<Longrightarrow> I w'"
    and leave: "\<And>w r. I w \<Longrightarrow> steps w < max_steps \<Longrightarrow> crawl_deeply_step ext title_from_url w = Inl r \<Longrightarrow> Q r"
    and limit: "\<And>w. I w \<Longrightarrow> \<not> steps w < max_steps \<Longrightarrow> Q (StepLimitReached, w)"
  shows "Q (crawl_deeply_loop ext title_from_url max_steps w)"
  using init
proof (induction "nat (max_steps - steps w)" arbitrary: w rule: less_induct)
  case less
  show ?case
  proof (cases "steps w < max_steps")
    case False
    with limit [OF less.prems False] show ?thesis by (simp add: crawl_deeply_loop.simps)
  next
    case True
    show ?thesis
    proof (cases "crawl_deeply_step ext title_from_url w")
      case (Inl r)
      with leave [OF less.prems True Inl] True show ?thesis
        by (simp add: crawl_deeply_loop.simps)
    next
      case (Inr w')
      have "I w'" using keep [OF less.prems True Inr] .
      moreover have "nat (max_steps - steps w') < nat (max_steps - steps w)"
        using crawl_deeply_step_steps [OF Inr] True by simp
      ultimately have "Q (crawl_deeply_loop ext title_from_url max_steps w')" by (rule less.hyps [rotated])
      then show ?thesis using True Inr by (simp add: crawl_deeply_loop.simps)
    qed
  qed
qed

section \<open>Step counts\<close>

lemma follow_path_step_len:
  "int (length (path w)) = steps w + 1 \<Longrightarrow> follow_path_step ext w = Inr w' \<Longrightarrow>
   int (length (path w')) = steps w' + 1"
  by (auto simp: follow_path_step_def Let_def split: prod.splits if_splits option.splits)

lemma follow_path_step_exit_len:
  "int (length (path w)) = steps w + 1 \<Longrightarrow> follow_path_step ext w = Inl r \<Longrightarrow>
   int (length (path (snd r))) = steps (snd r) + 1"
  by (auto simp: follow_path_step_def Let_def split: prod.splits if_splits option.splits)

lemma follow_path_loop_len:
  assumes "int (length (path w)) = steps w + 1"
  shows "int (length (path (snd (follow_path_loop ext max_steps w))))
         = steps (snd (follow_path_loop ext max_steps w)) + 1"
  by (rule follow_path_loop_rule
        [where I = "\<lambda>w. int (length (path w)) = steps w + 1"
           and Q = "\<lambda>r. int (length (path (snd r))) = steps (snd r) + 1"])
     (use assms in \<open>auto elim: follow_path_step_len follow_path_step_exit_len\<close>)

lemma follow_path_steps:
  "fp_steps (follow_path ext random_article start_url max_steps)
     = reported_steps (fp_path (follow_path ext random_article start_url max_steps))"
proof -
  define w0 where "w0 = \<lparr>current_url = start_of random_article start_url,
     path = [start_of random_article start_url], titles = Map.empty, steps = 0\<rparr>"
  obtain oc w where r: "follow_path_loop ext max_steps w0 = (oc, w)"
    by (cases "follow_path_loop ext max_steps w0")
  have "int (length (path w0)) = steps w0 + 1" by (simp add: w0_def)
  from follow_path_loop_len [OF this, of ext max_steps] r
  have "int (length (path w)) = steps w + 1" by simp
  with r show ?thesis
    by (simp add: follow_path_def reported_steps_def Let_def w0_def)
qed

lemma crawl_deeply_step_len:
  "int (length (path w)) = steps w + 1 \<Longrightarrow> crawl_deeply_step ext gt w = Inr w' \<Longrightarrow>
   int (length (path w')) = steps w' + 1"
  by (auto simp: crawl_deeply_step_def Let_def split: prod.splits if_splits option.splits)

lemma crawl_deeply_step_exit_len:
  "int (length (path w)) = steps w + 1 \<Longrightarrow> crawl_deeply_step ext gt w = Inl r \<Longrightarrow>
   int (length (path (snd r))) = steps (snd r) + 1 + (if fst r = AlreadyKnown then 1 else 0)"
  by (auto simp: crawl_deeply_step_def Let_def split: prod.splits if_splits option.splits)

lemma crawl_deeply_loop_len:
  assumes "int (length (path w)) = steps w + 1"
  shows "int (length (path (snd (crawl_deeply_loop ext gt max_steps w))))
         = steps (snd (crawl_deeply_loop ext gt max_steps w)) + 1
           + (if fst (crawl_deeply_loop ext gt max_steps w) = AlreadyKnown then 1 else 0)"
  by (rule crawl_deeply_loop_rule
        [where I = "\<lambda>w. int (length (path w)) = steps w + 1"
           and Q = "\<lambda>r. int (length (path (snd r))) = steps (snd r) + 1
                          + (if fst r = AlreadyKnown then 1 else 0)"])
     (use assms in \<open>auto elim: crawl_deeply_step_len dest: crawl_deeply_step_exit_len\<close>)

lemma crawl_deeply_steps:
  "reported_steps (dc_path (crawl_deeply ext gt random_article max_steps start_url vg))
     = dc_steps (crawl_deeply ext gt random_article max_steps start_url vg)
       + (if dc_outcome (crawl_deeply ext gt random_article max_steps start_url vg) = AlreadyKnown
          then 1 else 0)"
proof (cases "in_global vg (gt (start_of random_article start_url))")
  case True
  then show ?thesis
    by (simp add: crawl_deeply_def dc_finish_def crawl_deeply_init_def reported_steps_def)
next
  case False
  define w0 where "w0 = crawl_deeply_entered gt (start_of random_article start_url) vg"
  obtain oc w where r: "crawl_deeply_loop ext gt max_steps w0 = (oc, w)"
    by (cases "crawl_deeply_loop ext gt max_steps w0")
  have "int (length (path w0)) = steps w0 + 1"
    by (simp add: w0_def crawl_deeply_entered_def crawl_deeply_init_def)
  from crawl_deeply_loop_len [OF this, of ext gt max_steps] r
  have "int (length (path w)) = steps w + 1 + (if oc = AlreadyKnown then 1 else 0)" by simp
  with r False show ?thesis
    by (simp add: crawl_deeply_def dc_finish_def reported_steps_def Let_def w0_def)
qed

section \<open>Claim C10\<close>

text \<open>
  C10. A deep walk whose start article has its locator-derived title in the supplied
  global set returns at once, whatever the extractor would answer: the path is the
  start locator alone, the titles mapping is empty and the set of newly visited titles
  is empty, so that merging it into any set \<open>G\<close> leaves \<open>G\<close> as it is. The supplied
  set is not changed.
\<close>

theorem crawl_deeply_start_known:
  assumes "gt (start_of random_article start_url) \<in> g"
  shows "crawl_deeply ext gt random_article max_steps start_url (Some g)
         = \<lparr>dc_path = [start_of random_article start_url], dc_titles = Map.empty,
            dc_visited_articles = {}, dc_steps = 0, dc_outcome = StartAlreadyKnown,
            dc_visited_global = Some g\<rparr>
       \<and> G \<union> dc_visited_articles
               (crawl_deeply ext gt random_article max_steps start_url (Some g)) = G"
  using assms
  by (simp add: crawl_deeply_def dc_finish_def crawl_deeply_init_def in_global_def)

theorem crawl_deeply_start_known_witness:
  "id (start_of ''R'' (Some ''Logic'')) \<in> {''Logic'', ''Art''}
   \<and> crawl_deeply (\<lambda>i u. (Some ''Art'', ''Logic'')) id ''R'' 1000 (Some ''Logic'')
         (Some {''Logic'', ''Art''})
       = \<lparr>dc_path = [''Logic''], dc_titles = Map.empty, dc_visited_articles = {},
          dc_steps = 0, dc_outcome = StartAlreadyKnown,
          dc_visited_global = Some {''Logic'', ''Art''}\<rparr>"
proof -
  have h: "id (start_of ''R'' (Some ''Logic'')) \<in> {''Logic'', ''Art''}"
    by (simp add: start_of_def)
  show ?thesis
    using h crawl_deeply_start_known
            [where gt = id and random_article = "''R''" and start_url = "Some ''Logic''"
               and g = "{''Logic'', ''Art''}" and ext = "\<lambda>i u. (Some ''Art'', ''Logic'')"
               and max_steps = 1000 and G = "{}"]
    by (simp add: start_of_def)
qed

section \<open>Claim C9\<close>

lemma follow_general_path_step_depth:
  "steps w \<le> target_depth - 1 \<Longrightarrow> follow_general_path_step ext target_depth w = Inr w' \<Longrightarrow>
   steps w' \<le> target_depth - 1"
  by (auto simp: follow_general_path_step_def Let_def split: prod.splits if_splits option.splits)

lemma follow_general_path_step_len:
  "int (length (path w)) = steps w + 1 \<Longrightarrow> follow_general_path_step ext target_depth w = Inr w' \<Longrightarrow>
   int (length (path w')) = steps w' + 1"
  by (auto simp: follow_general_path_step_def Let_def split: prod.splits if_splits option.splits)

lemma follow_general_path_step_exit:
  "follow_general_path_step ext target_depth w = Inl r \<Longrightarrow>
   path (snd r) = path w \<and> steps (snd r) = steps w
   \<and> (fst r = Completed \<longleftrightarrow> target_depth - 1 \<le> steps w)"
  by (auto simp: follow_general_path_step_def Let_def split: prod.splits if_splits option.splits)

lemma follow_general_path_step_at_depth:
  "target_depth - 1 \<le> steps (w::general_walker) \<Longrightarrow>
   follow_general_path_step ext target_depth w
     = Inl (Completed, w\<lparr>titles := (titles w)(current_url w \<mapsto> snd (ext (steps w) (current_url w)))\<rparr>)"
  by (simp add: follow_general_path_step_def Let_def split: prod.splits)

lemma follow_general_path_loop_depth:
  assumes "target_depth - 1 < max_steps" "steps w \<le> target_depth - 1"
    "int (length (path w)) = steps w + 1"
  shows "case follow_general_path_loop ext target_depth max_steps w of (oc, w') \<Rightarrow>
           steps w' \<le> target_depth - 1 \<and> int (length (path w')) = steps w' + 1
           \<and> (oc = Completed \<longleftrightarrow> steps w' = target_depth - 1) \<and> oc \<noteq> StepLimitReached"
proof (rule follow_general_path_loop_rule
        [where I = "\<lambda>w. steps w \<le> target_depth - 1 \<and> int (length (path w)) = steps w + 1"])
  show "steps w \<le> target_depth - 1 \<and> int (length (path w)) = steps w + 1"
    using assms by simp
next
  fix w w' :: general_walker
  assume "steps w \<le> target_depth - 1 \<and> int (length (path w)) = steps w + 1"
    "follow_general_path_step ext target_depth w = Inr w'"
  then show "steps w' \<le> target_depth - 1 \<and> int (length (path w')) = steps w' + 1"
    using follow_general_path_step_depth follow_general_path_step_len by blast
next
  fix w :: general_walker and r
  assume I: "steps w \<le> target_depth - 1 \<and> int (length (path w)) = steps w + 1"
    and ex: "follow_general_path_step ext target_depth w = Inl r"
  obtain oc w' where r: "r = (oc, w')" by (cases r)
  from follow_general_path_step_exit [OF ex] r
  have "path w' = path w" "steps w' = steps w" "oc = Completed \<longleftrightarrow> target_depth - 1 \<le> steps w"
    by simp_all
  moreover have "oc \<noteq> StepLimitReached"
    using ex r by (auto simp: follow_general_path_step_def Let_def
                        split: prod.splits if_splits option.splits)
  ultimately show "case r of (oc, w') \<Rightarrow>
           steps w' \<le> target_depth - 1 \<and> int (length (path w')) = steps w' + 1
           \<and> (oc = Completed \<longleftrightarrow> steps w' = target_depth - 1) \<and> oc \<noteq> StepLimitReached"
    using I r by auto
next
  fix w :: general_walker
  assume "steps w \<le> target_depth - 1 \<and> int (length (path w)) = steps w + 1"
    "\<not> steps w < max_steps"
  with assms(1) have False by simp
  then show "case (StepLimitReached, w) of (oc, w') \<Rightarrow>
           steps w' \<le> target_depth - 1 \<and> int (length (path w')) = steps w' + 1
           \<and> (oc = Completed \<longleftrightarrow> steps w' = target_depth - 1) \<and> oc \<noteq> StepLimitReached" ..
qed

text \<open>
  C9. In a directed walk with target depth \<open>d \<ge> 1\<close> and a step budget above \<open>d - 1\<close>,
  the path has at most \<open>d\<close> elements (at most \<open>d - 1\<close> edges), the walk reports the
  target depth as reached exactly when its counter is \<open>d - 1\<close> at the exit, and an
  iteration entered with the counter at \<open>d - 1\<close> or above returns there whatever the
  extractor answered (no next link, or a link that closes a loop): the test of the
  target depth comes before the tests for a dead end and for a loop.
\<close>

theorem target_depth_first:
  assumes "1 \<le> target_depth" and "target_depth - 1 < max_steps"
  shows "int (length (gp_path (follow_general_path ext random_article target_depth max_steps start_url)))
           \<le> target_depth
       \<and> reported_steps (gp_path (follow_general_path ext random_article target_depth max_steps start_url))
           \<le> target_depth - 1
       \<and> (gp_reached_depth (follow_general_path ext random_article target_depth max_steps start_url)
            \<longleftrightarrow> gp_steps (follow_general_path ext random_article target_depth max_steps start_url)
                  = target_depth - 1)
       \<and> (\<forall>w::general_walker. target_depth - 1 \<le> steps w \<longrightarrow>
              follow_general_path_step ext target_depth w
                = Inl (Completed, w\<lparr>titles := (titles w)(current_url w \<mapsto>
                                        snd (ext (steps w) (current_url w)))\<rparr>))"
proof -
  define w0 :: general_walker where "w0 = \<lparr>current_url = start_of random_article start_url,
     path = [start_of random_article start_url], titles = Map.empty, steps = 0,
     visited_in_path = {start_of random_article start_url}\<rparr>"
  obtain oc w where r: "follow_general_path_loop ext target_depth max_steps w0 = (oc, w)"
    by (cases "follow_general_path_loop ext target_depth max_steps w0")
  have "steps w0 \<le> target_depth - 1" "int (length (path w0)) = steps w0 + 1"
    using assms(1) by (simp_all add: w0_def)
  from follow_general_path_loop_depth [OF assms(2) this, of ext] r
  have *: "steps w \<le> target_depth - 1" "int (length (path w)) = steps w + 1"
    "oc = Completed \<longleftrightarrow> steps w = target_depth - 1" by simp_all
  have res: "follow_general_path ext random_article target_depth max_steps start_url
     = \<lparr>gp_path = path w, gp_titles = titles w,
        gp_reached_depth = (if oc = Completed then True else steps w \<ge> target_depth - 1),
        gp_steps = steps w, gp_outcome = oc\<rparr>"
    using r by (simp add: follow_general_path_def Let_def w0_def)
  show ?thesis
    unfolding res using * by (auto simp: reported_steps_def follow_general_path_step_at_depth)
qed

theorem target_depth_first_witness:
  "(1::int) \<le> 1 \<and> (1::int) - 1 < 5
   \<and> gp_path (follow_general_path (\<lambda>i u. (None, ''T'')) ''R'' 1 5 (Some ''X'')) = [''X'']
   \<and> gp_reached_depth (follow_general_path (\<lambda>i u. (None, ''T'')) ''R'' 1 5 (Some ''X''))"
proof -
  have h1: "(1::int) \<le> 1" and h2: "(1::int) - 1 < 5" by simp_all
  show ?thesis
    using target_depth_first [OF h1 h2, of "\<lambda>i u. (None, ''T'')" "''R''" "Some ''X''"]
    by (simp add: follow_general_path_def start_of_def follow_general_path_loop.simps
                  follow_general_path_step_def Let_def)
qed

section \<open>Claim C1\<close>

lemma path_index_Some:
  "path_index p x = Some i \<Longrightarrow> i < length p \<and> p ! i = x \<and> x \<notin> set (take i p)"
  by (induction p arbitrary: i) (auto split: if_splits)

lemma path_index_mem: "x \<in> set p \<Longrightarrow> \<exists>i. path_index p x = Some i"
  by (induction p) auto

lemma distinct_count_list_one: "distinct p \<Longrightarrow> x \<in> set p \<Longrightarrow> count_list p x = 1"
  by (induction p) (auto simp: count_list_0_iff)

lemma cycle_start_drop:
  assumes "path_index p x = Some i"
  shows "cycle_start (LoopDetected (Some (drop i p @ ys))) = Some x"
proof -
  from path_index_Some [OF assms] have "i < length p" "p ! i = x" by simp_all
  then have "drop i p = x # drop (Suc i) p" using Cons_nth_drop_Suc [of i p] by simp
  then show ?thesis by simp
qed

lemma follow_general_path_step_Inr:
  assumes "follow_general_path_step ext target_depth w = Inr w'"
  shows "\<exists>n. n \<notin> visited_in_path w \<and> path w' = path w @ [n] \<and> current_url w' = n
             \<and> visited_in_path w' = insert n (visited_in_path w)"
proof -
  obtain next_url current_title where e: "ext (steps w) (current_url w) = (next_url, current_title)"
    by (cases "ext (steps w) (current_url w)")
  show ?thesis
  proof (cases next_url)
    case None
    with assms e show ?thesis
      by (simp add: follow_general_path_step_def Let_def split: if_splits)
  next
    case (Some n)
    with assms e have "n \<notin> visited_in_path w"
      and "w' = w\<lparr>titles := (titles w)(current_url w \<mapsto> current_title),
                     current_url := n, path := path w @ [n], steps := steps w + 1,
                     visited_in_path := insert n (visited_in_path w)\<rparr>"
      by (simp_all add: follow_general_path_step_def Let_def split: if_splits)
    then show ?thesis by simp
  qed
qed

lemma follow_general_path_step_inv:
  assumes "walker_inv w" and "follow_general_path_step ext target_depth w = Inr w'"
  shows "walker_inv w'"
proof -
  from follow_general_path_step_Inr [OF assms(2)] obtain n
    where "n \<notin> visited_in_path w" "path w' = path w @ [n]" "current_url w' = n"
      "visited_in_path w' = insert n (visited_in_path w)" by blast
  with assms(1) show ?thesis by (simp add: walker_inv_def)
qed

lemma follow_general_path_step_loop_exit:
  assumes inv: "walker_inv w" and ex: "follow_general_path_step ext target_depth w = Inl (oc, w')"
  shows "loop_exit_ok ext oc (path w') (steps w')"
proof -
  obtain next_url current_title where e: "ext (steps w) (current_url w) = (next_url, current_title)"
    by (cases "ext (steps w) (current_url w)")
  from ex e have pw: "path w' = path w" "steps w' = steps w"
    by (auto simp: follow_general_path_step_def Let_def split: if_splits option.splits)
  have d: "distinct (path w)" and l: "last (path w) = current_url w"
    and v: "visited_in_path w = set (path w)"
    using inv by (simp_all add: walker_inv_def)
  have "\<exists>x i. fst (ext (steps w) (last (path w))) = Some x \<and> path_index (path w) x = Some i
                \<and> lp = Some (drop i (path w) @ [x]) \<and> cycle_start oc = Some x
                \<and> count_list (path w) x = 1" if oc: "oc = LoopDetected lp" for lp
  proof -
    from ex e oc obtain n where n: "next_url = Some n" "n \<in> visited_in_path w"
      and lp: "lp = map_option (\<lambda>loop_index. drop loop_index (path w) @ [n]) (path_index (path w) n)"
      by (auto simp: follow_general_path_step_def Let_def split: if_splits option.splits)
    from n v have mem: "n \<in> set (path w)" by simp
    then obtain i where i: "path_index (path w) n = Some i" using path_index_mem by blast
    have "cycle_start oc = Some n" using oc lp i cycle_start_drop [OF i] by simp
    moreover have "count_list (path w) n = 1" by (rule distinct_count_list_one [OF d mem])
    moreover have "fst (ext (steps w) (last (path w))) = Some n" using e l n(1) by simp
    moreover have "lp = Some (drop i (path w) @ [n])" using lp i by simp
    ultimately show ?thesis using i by blast
  qed
  then show ?thesis using d pw by (simp add: loop_exit_ok_def)
qed

lemma follow_general_path_loop_exit:
  assumes "walker_inv w"
  shows "case follow_general_path_loop ext target_depth max_steps w of (oc, w') \<Rightarrow>
           loop_exit_ok ext oc (path w') (steps w')"
proof (rule follow_general_path_loop_rule [where I = walker_inv])
  show "walker_inv w" by (rule assms)
next
  fix w w' :: general_walker
  assume "walker_inv w" "follow_general_path_step ext target_depth w = Inr w'"
  then show "walker_inv w'" by (rule follow_general_path_step_inv)
next
  fix w :: general_walker and r
  assume "walker_inv w" "follow_general_path_step ext target_depth w = Inl r"
  then show "case r of (oc, w') \<Rightarrow> loop_exit_ok ext oc (path w') (steps w')"
    using follow_general_path_step_loop_exit by (cases r) auto
next
  fix w :: general_walker
  assume "walker_inv w"
  then show "case (StepLimitReached, w) of (oc, w') \<Rightarrow> loop_exit_ok ext oc (path w') (steps w')"
    by (simp add: loop_exit_ok_def walker_inv_def)
qed

lemma follow_general_path_exit:
  "loop_exit_ok ext
     (gp_outcome (follow_general_path ext random_article target_depth max_steps start_url))
     (gp_path (follow_general_path ext random_article target_depth max_steps start_url))
     (gp_steps (follow_general_path ext random_article target_depth max_steps start_url))"
proof -
  define w0 :: general_walker where "w0 = \<lparr>current_url = start_of random_article start_url,
     path = [start_of random_article start_url], titles = Map.empty, steps = 0,
     visited_in_path = {start_of random_article start_url}\<rparr>"
  obtain oc w where r: "follow_general_path_loop ext target_depth max_steps w0 = (oc, w)"
    by (cases "follow_general_path_loop ext target_depth max_steps w0")
  have "walker_inv w0" by (simp add: w0_def walker_inv_def)
  from follow_general_path_loop_exit [OF this, of ext target_depth max_steps] r
  have "loop_exit_ok ext oc (path w) (steps w)" by simp
  then show ?thesis using r by (simp add: follow_general_path_def Let_def w0_def)
qed

lemma crawl_deeply_step_Inr:
  assumes "crawl_deeply_step ext gt w = Inr w'"
  shows "\<exists>n. n \<notin> visited_in_path w \<and> \<not> in_global (visited_global w) (gt n)
             \<and> path w' = path w @ [n] \<and> current_url w' = n
             \<and> visited_in_path w' = insert n (visited_in_path w)
             \<and> visited_articles w' = insert (gt n) (visited_articles w)
             \<and> visited_global w' = add_global (visited_global w) (gt n)"
proof -
  obtain next_url current_title where e: "ext (steps w) (current_url w) = (next_url, current_title)"
    by (cases "ext (steps w) (current_url w)")
  show ?thesis
  proof (cases next_url)
    case None
    with assms e show ?thesis by (simp add: crawl_deeply_step_def Let_def)
  next
    case (Some n)
    with assms e have "n \<notin> visited_in_path w" "\<not> in_global (visited_global w) (gt n)"
      and "w' = w\<lparr>titles := (titles w)(current_url w \<mapsto> current_title),
                     current_url := n, path := path w @ [n], steps := steps w + 1,
                     visited_in_path := insert n (visited_in_path w),
                     visited_articles := insert (gt n) (visited_articles w),
                     visited_global := add_global (visited_global w) (gt n)\<rparr>"
      by (simp_all add: crawl_deeply_step_def Let_def split: if_splits)
    then show ?thesis by simp
  qed
qed

lemma crawl_deeply_step_inv:
  assumes "walker_inv w" and "crawl_deeply_step ext gt w = Inr w'"
  shows "walker_inv w'"
proof -
  from crawl_deeply_step_Inr [OF assms(2)] obtain n
    where "n \<notin> visited_in_path w" "path w' = path w @ [n]" "current_url w' = n"
      "visited_in_path w' = insert n (visited_in_path w)" by blast
  with assms(1) show ?thesis by (simp add: walker_inv_def)
qed

lemma crawl_deeply_step_loop_exit:
  assumes inv: "walker_inv w" and ex: "crawl_deeply_step ext gt w = Inl (oc, w')"
  shows "loop_exit_ok ext oc (path w') (steps w')"
proof -
  obtain next_url current_title where e: "ext (steps w) (current_url w) = (next_url, current_title)"
    by (cases "ext (steps w) (current_url w)")
  have d: "distinct (path w)" and l: "last (path w) = current_url w"
    and v: "visited_in_path w = set (path w)"
    using inv by (simp_all add: walker_inv_def)
  show ?thesis
  proof (cases "\<exists>lp. oc = LoopDetected lp")
    case False
    have "distinct (path w')"
      using ex e d v
      by (auto simp: crawl_deeply_step_def Let_def split: if_splits option.splits)
    with False show ?thesis by (simp add: loop_exit_ok_def)
  next
    case True
    then obtain lp where oc: "oc = LoopDetected lp" by blast
    from ex e oc obtain n where n: "next_url = Some n" "n \<in> visited_in_path w"
      and lp: "lp = map_option (\<lambda>loop_index. drop loop_index (path w) @ [n]) (path_index (path w) n)"
      and pw: "path w' = path w" "steps w' = steps w"
      by (auto simp: crawl_deeply_step_def Let_def split: if_splits option.splits)
    from n v have mem: "n \<in> set (path w)" by simp
    then obtain i where i: "path_index (path w) n = Some i" using path_index_mem by blast
    have "cycle_start oc = Some n" using oc lp i cycle_start_drop [OF i] by simp
    moreover have "count_list (path w) n = 1" by (rule distinct_count_list_one [OF d mem])
    moreover have "fst (ext (steps w) (last (path w))) = Some n" using e l n(1) by simp
    moreover have "lp = Some (drop i (path w) @ [n])" using lp i by simp
    ultimately have "\<exists>x i. fst (ext (steps w) (last (path w))) = Some x
         \<and> path_index (path w) x = Some i \<and> lp = Some (drop i (path w) @ [x])
         \<and> cycle_start oc = Some x \<and> count_list (path w) x = 1"
      using i by blast
    then show ?thesis using d pw oc by (simp add: loop_exit_ok_def)
  qed
qed

lemma crawl_deeply_loop_exit:
  assumes "walker_inv w"
  shows "case crawl_deeply_loop ext gt max_steps w of (oc, w') \<Rightarrow>
           loop_exit_ok ext oc (path w') (steps w')"
proof (rule crawl_deeply_loop_rule [where I = walker_inv])
  show "walker_inv w" by (rule assms)
next
  fix w w' :: deep_walker
  assume "walker_inv w" "crawl_deeply_step ext gt w = Inr w'"
  then show "walker_inv w'" by (rule crawl_deeply_step_inv)
next
  fix w :: deep_walker and r
  assume "walker_inv w" "crawl_deeply_step ext gt w = Inl r"
  then show "case r of (oc, w') \<Rightarrow> loop_exit_ok ext oc (path w') (steps w')"
    using crawl_deeply_step_loop_exit by (cases r) auto
next
  fix w :: deep_walker
  assume "walker_inv w"
  then show "case (StepLimitReached, w) of (oc, w') \<Rightarrow> loop_exit_ok ext oc (path w') (steps w')"
    by (simp add: loop_exit_ok_def walker_inv_def)
qed

lemma crawl_deeply_exit:
  "loop_exit_ok ext
     (dc_outcome (crawl_deeply ext gt random_article max_steps start_url vg))
     (dc_path (crawl_deeply ext gt random_article max_steps start_url vg))
     (dc_steps (crawl_deeply ext gt random_article max_steps start_url vg))"
proof (cases "in_global vg (gt (start_of random_article start_url))")
  case True
  then show ?thesis
    by (simp add: crawl_deeply_def dc_finish_def crawl_deeply_init_def loop_exit_ok_def)
next
  case False
  define w0 where "w0 = crawl_deeply_entered gt (start_of random_article start_url) vg"
  obtain oc w where r: "crawl_deeply_loop ext gt max_steps w0 = (oc, w)"
    by (cases "crawl_deeply_loop ext gt max_steps w0")
  have "walker_inv w0"
    by (simp add: w0_def walker_inv_def crawl_deeply_entered_def crawl_deeply_init_def)
  from crawl_deeply_loop_exit [OF this, of ext gt max_steps] r
  have "loop_exit_ok ext oc (path w) (steps w)" by simp
  then show ?thesis using r False
    by (simp add: crawl_deeply_def dc_finish_def Let_def w0_def)
qed

text \<open>
  C1, as the code has it. In a walk of \<^verbatim>\<open>follow_general_path\<close> or of
  \<^verbatim>\<open>crawl_deeply\<close> no locator is in the returned path twice, and when the walk ends
  with a detected loop, the locator whose repetition triggered the detection is in the
  path once, at the position where the cycle starts, and was not appended again. On the
  chain \<open>X \<rightarrow> Y \<rightarrow> Z \<rightarrow> X\<close> with step budget 5, \<^verbatim>\<open>follow_general_path\<close> (target depth
  10) ends with a detected loop, cycle start \<open>X\<close>, path \<open>[X, Y, Z]\<close> and step count 2.
\<close>

theorem loop_detected_before_append:
  fixes ext ext' :: extractor
    and random_article random_article' :: url
    and target_depth max_steps max_steps' :: int
    and start_url start_url' :: "url option"
    and gt :: "url \<Rightarrow> title"
    and vg :: "title set option"
  defines "G \<equiv> follow_general_path ext random_article target_depth max_steps start_url"
    and "D \<equiv> crawl_deeply ext' gt random_article' max_steps' start_url' vg"
    and "S \<equiv> follow_general_path scenario_C ''R'' 10 5 (Some ''X'')"
  shows "loop_exit_ok ext (gp_outcome G) (gp_path G) (gp_steps G)
       \<and> loop_exit_ok ext' (dc_outcome D) (dc_path D) (dc_steps D)
       \<and> gp_outcome S = LoopDetected (Some [''X'', ''Y'', ''Z'', ''X''])
       \<and> cycle_start (gp_outcome S) = Some ''X''
       \<and> gp_path S = [''X'', ''Y'', ''Z'']
       \<and> reported_steps (gp_path S) = 2 \<and> gp_steps S = 2"
proof -
  have "gp_path S = [''X'', ''Y'', ''Z'']
      \<and> gp_outcome S = LoopDetected (Some [''X'', ''Y'', ''Z'', ''X''])
      \<and> gp_steps S = 2"
    unfolding S_def
    by (simp add: follow_general_path_def start_of_def follow_general_path_loop.simps
                  follow_general_path_step_def Let_def scenario_C_def)
  then show ?thesis
    unfolding G_def D_def
    using follow_general_path_exit crawl_deeply_exit by (simp add: reported_steps_def)
qed

theorem loop_detected_before_append_witness:
  "gp_outcome (follow_general_path scenario_C ''R'' 10 5 (Some ''X''))
     = LoopDetected (Some [''X'', ''Y'', ''Z'', ''X''])
   \<and> (\<exists>x i. fst (scenario_C 2 (last [''X'', ''Y'', ''Z''])) = Some x
          \<and> path_index [''X'', ''Y'', ''Z''] x = Some i
          \<and> Some [''X'', ''Y'', ''Z'', ''X''] = Some (drop i [''X'', ''Y'', ''Z''] @ [x])
          \<and> cycle_start (LoopDetected (Some [''X'', ''Y'', ''Z'', ''X''])) = Some x
          \<and> count_list [''X'', ''Y'', ''Z''] x = 1)"
proof -
  define S where "S = follow_general_path scenario_C ''R'' 10 5 (Some ''X'')"
  note t = loop_detected_before_append
             [where ext = scenario_C and random_article = "''R''" and target_depth = 10
                and max_steps = 5 and start_url = "Some ''X''", folded S_def]
  from t have ok: "loop_exit_ok scenario_C (gp_outcome S) (gp_path S) (gp_steps S)"
    and oc: "gp_outcome S = LoopDetected (Some [''X'', ''Y'', ''Z'', ''X''])"
    and p: "gp_path S = [''X'', ''Y'', ''Z'']" and n: "gp_steps S = 2"
    by blast+
  from ok have "\<forall>lp. LoopDetected (Some [''X'', ''Y'', ''Z'', ''X'']) = LoopDetected lp \<longrightarrow>
         (\<exists>x i. fst (scenario_C 2 (last [''X'', ''Y'', ''Z''])) = Some x
                \<and> path_index [''X'', ''Y'', ''Z''] x = Some i
                \<and> lp = Some (drop i [''X'', ''Y'', ''Z''] @ [x])
                \<and> cycle_start (LoopDetected (Some [''X'', ''Y'', ''Z'', ''X''])) = Some x
                \<and> count_list [''X'', ''Y'', ''Z''] x = 1)"
    unfolding loop_exit_ok_def oc p n by blast
  then show ?thesis using oc unfolding S_def by blast
qed

text \<open>
  C1 as stated fails for \<^verbatim>\<open>follow_path\<close>, which tests the current locator against
  the earlier path after appending it: on the same chain and budget it returns the path
  \<open>[X, Y, Z, X]\<close>, with \<open>X\<close> in it twice, and the step count 3.
\<close>

theorem follow_path_appends_repeated_locator:
  "fp_outcome (follow_path scenario_C ''R'' (Some ''X'') 5)
     = LoopDetected (Some [''X'', ''Y'', ''Z'', ''X''])
   \<and> fp_path (follow_path scenario_C ''R'' (Some ''X'') 5) = [''X'', ''Y'', ''Z'', ''X'']
   \<and> fp_path (follow_path scenario_C ''R'' (Some ''X'') 5) \<noteq> [''X'', ''Y'', ''Z'']
   \<and> count_list (fp_path (follow_path scenario_C ''R'' (Some ''X'') 5)) ''X'' = 2
   \<and> fp_steps (follow_path scenario_C ''R'' (Some ''X'') 5) = 3"
  by (simp add: follow_path_def start_of_def follow_path_loop.simps
                follow_path_step_def Let_def scenario_C_def)

section \<open>Claim C2\<close>

lemma crawl_deeply_step_deep_inv:
  assumes "deep_inv gt g0 w" and "crawl_deeply_step ext gt w = Inr w'"
  shows "deep_inv gt g0 w'"
proof -
  from crawl_deeply_step_Inr [OF assms(2)] obtain n
    where n: "n \<notin> visited_in_path w" "\<not> in_global (visited_global w) (gt n)"
      "path w' = path w @ [n]" "current_url w' = n"
      "visited_in_path w' = insert n (visited_in_path w)"
      "visited_global w' = add_global (visited_global w) (gt n)" by blast
  from assms(1) obtain g where g: "visited_global w = Some g" "g0 \<subseteq> g"
    by (auto simp: deep_inv_def)
  from n(2) g have "gt n \<notin> g0" by (auto simp: in_global_def)
  moreover have "walker_inv w'" using assms(1) n by (simp add: deep_inv_def walker_inv_def)
  moreover have "visited_global w' = Some (insert (gt n) g)" "g0 \<subseteq> insert (gt n) g"
    using n(6) g by (auto simp: add_global_def)
  ultimately show ?thesis using assms(1) n(3) by (simp add: deep_inv_def)
qed

lemma crawl_deeply_visits_inv:
  assumes "crawl_deeply_visits ext gt max_steps start (Some g0) w"
  shows "deep_inv gt g0 w"
  using assms
proof (induction rule: crawl_deeply_visits.induct)
  case visits_first
  then show ?case
    by (auto simp: deep_inv_def walker_inv_def crawl_deeply_entered_def crawl_deeply_init_def
                   in_global_def add_global_def)
next
  case (visits_next w w')
  then show ?case using crawl_deeply_step_deep_inv by blast
qed

lemma crawl_deeply_visits_loop:
  assumes "crawl_deeply_visits ext gt max_steps start vg w"
  shows "\<not> in_global vg (gt start)
       \<and> crawl_deeply_loop ext gt max_steps (crawl_deeply_entered gt start vg)
         = crawl_deeply_loop ext gt max_steps w"
  using assms
proof (induction rule: crawl_deeply_visits.induct)
  case visits_first
  then show ?case by simp
next
  case (visits_next w w')
  then show ?case by (simp add: crawl_deeply_loop.simps [of ext gt max_steps w])
qed

text \<open>
  C2, as the code has it. In a deep walk that was given the global set \<open>g0\<close>, at every
  iteration \<open>w\<close> of the loop where the extractor returns a next link \<open>n\<close> whose
  locator-derived title (\<^verbatim>\<open>get_title_from_url(next_url)\<close>) is in \<open>g0\<close>, the set as
  the caller supplied it, the walk ends there with the outcome \<open>AlreadyKnown\<close>: the
  returned path is the path so far followed by \<open>n\<close>, which is in it once, and the
  counter is not advanced.
\<close>

theorem already_known_appended_once:
  assumes vis: "crawl_deeply_visits ext gt max_steps (start_of random_article start_url) (Some g0) w"
    and run: "steps w < max_steps"
    and nxt: "ext (steps w) (current_url w) = (Some n, t)" "n \<noteq> []"
    and known: "gt n \<in> g0"
  shows "dc_outcome (crawl_deeply ext gt random_article max_steps start_url (Some g0)) = AlreadyKnown
       \<and> dc_path (crawl_deeply ext gt random_article max_steps start_url (Some g0)) = path w @ [n]
       \<and> count_list (dc_path (crawl_deeply ext gt random_article max_steps start_url (Some g0))) n = 1
       \<and> dc_steps (crawl_deeply ext gt random_article max_steps start_url (Some g0)) = steps w"
proof -
  from crawl_deeply_visits_inv [OF vis] have inv: "deep_inv gt g0 w" .
  then obtain g where g: "visited_global w = Some g" "g0 \<subseteq> g" by (auto simp: deep_inv_def)
  from inv have v: "visited_in_path w = set (path w)" and d: "distinct (path w)"
    and fresh: "\<forall>u \<in> set (path w). gt u \<notin> g0"
    by (simp_all add: deep_inv_def walker_inv_def)
  from fresh known have nin: "n \<notin> set (path w)" by blast
  have ing: "in_global (visited_global w) (gt n)" using g known by (auto simp: in_global_def)
  define w2 where "w2 = w\<lparr>titles := (titles w)(current_url w \<mapsto> t, n \<mapsto> gt n),
                            path := path w @ [n]\<rparr>"
  have st: "crawl_deeply_step ext gt w = Inl (AlreadyKnown, w2)"
    using nxt nin v ing by (simp add: crawl_deeply_step_def Let_def w2_def)
  have lp: "crawl_deeply_loop ext gt max_steps w = (AlreadyKnown, w2)"
    using run st by (simp add: crawl_deeply_loop.simps [of ext gt max_steps w])
  from crawl_deeply_visits_loop [OF vis] lp
  have res: "crawl_deeply ext gt random_article max_steps start_url (Some g0)
             = dc_finish (AlreadyKnown, w2)"
    by (simp add: crawl_deeply_def Let_def)
  have "count_list (path w @ [n]) n = 1" using nin by (simp add: count_list_0_iff)
  then show ?thesis unfolding res by (simp add: dc_finish_def w2_def)
qed

theorem already_known_appended_once_witness:
  "crawl_deeply_visits scenario_C (\<lambda>u. u) 5 (start_of ''R'' (Some ''X'')) (Some {''Y''})
     (crawl_deeply_entered (\<lambda>u. u) ''X'' (Some {''Y''}))
   \<and> dc_outcome (crawl_deeply scenario_C (\<lambda>u. u) ''R'' 5 (Some ''X'') (Some {''Y''})) = AlreadyKnown
   \<and> dc_path (crawl_deeply scenario_C (\<lambda>u. u) ''R'' 5 (Some ''X'') (Some {''Y''})) = [''X'', ''Y'']"
proof -
  have v: "crawl_deeply_visits scenario_C (\<lambda>u. u) 5 (start_of ''R'' (Some ''X'')) (Some {''Y''})
     (crawl_deeply_entered (\<lambda>u. u) (start_of ''R'' (Some ''X'')) (Some {''Y''}))"
    by (rule visits_first) (simp add: in_global_def start_of_def)
  have s: "steps (crawl_deeply_entered (\<lambda>u. u) (start_of ''R'' (Some ''X'')) (Some {''Y''})) < 5"
    by (simp add: crawl_deeply_entered_def crawl_deeply_init_def)
  have e: "scenario_C (steps (crawl_deeply_entered (\<lambda>u. u) (start_of ''R'' (Some ''X'')) (Some {''Y''})))
             (current_url (crawl_deeply_entered (\<lambda>u. u) (start_of ''R'' (Some ''X'')) (Some {''Y''})))
           = (Some ''Y'', ''x'')"
    by (simp add: crawl_deeply_entered_def crawl_deeply_init_def scenario_C_def start_of_def)
  have n: "''Y'' \<noteq> []" and k: "(\<lambda>u. u) ''Y'' \<in> {''Y''}" by simp_all
  show ?thesis
    using v already_known_appended_once [OF v s e n k]
    by (simp add: crawl_deeply_entered_def crawl_deeply_init_def start_of_def)
qed

lemma segment_titles:
  "segment_title ''/wiki/X'' = ''X''" "segment_title ''/wiki/USA'' = ''USA''"
  "segment_title ''/wiki/W'' = ''W''"
  by (simp_all add: segment_title_def get_title_from_url_def last_segment_def
                    underscores_to_spaces_def)

text \<open>
  C2 as stated fails in two ways. The test is on the title derived from the locator of
  the next link, not on the title its page resolves to: the walk from \<open>/wiki/X\<close> with
  the supplied set \<open>{United States}\<close> goes past \<open>/wiki/USA\<close>, whose page has that
  title, and ends at a dead end two links later. And a title that the walk itself added
  to the set belongs to a locator of the path: when that locator comes back as the next
  link, the loop test comes first, and the walk ends with a detected loop and without
  appending it.
\<close>

theorem resolved_title_known_walk_continues:
  "known_page 0 ''/wiki/X'' = (Some ''/wiki/USA'', ''X'')
   \<and> snd (known_page 1 ''/wiki/USA'') = ''United States''
   \<and> ''United States'' \<in> {''United States''}
   \<and> dc_path (crawl_deeply known_page segment_title ''R'' 1000 (Some ''/wiki/X'')
                (Some {''United States''})) = [''/wiki/X'', ''/wiki/USA'', ''/wiki/W'']
   \<and> dc_outcome (crawl_deeply known_page segment_title ''R'' 1000 (Some ''/wiki/X'')
                (Some {''United States''})) = DeadEnd
   \<and> dc_titles (crawl_deeply known_page segment_title ''R'' 1000 (Some ''/wiki/X'')
                (Some {''United States''})) ''/wiki/USA'' = Some ''United States''
   \<and> dc_outcome (crawl_deeply scenario_C locator_title ''R'' 1000 (Some ''X'') (Some {}))
       = LoopDetected (Some [''X'', ''Y'', ''Z'', ''X''])
   \<and> dc_path (crawl_deeply scenario_C locator_title ''R'' 1000 (Some ''X'') (Some {}))
       = [''X'', ''Y'', ''Z'']
   \<and> dc_visited_global (crawl_deeply scenario_C locator_title ''R'' 1000 (Some ''X'') (Some {}))
       = Some {''Z'', ''Y'', ''X''}"
  by (simp add: crawl_deeply_def crawl_deeply_loop.simps crawl_deeply_step_def
                crawl_deeply_entered_def crawl_deeply_init_def dc_finish_def
                in_global_def add_global_def start_of_def known_page_def scenario_C_def
                segment_titles locator_title_def Let_def)

section \<open>Claim C6\<close>

lemma extract_unfold:
  "extract_first_link urljoin tfu fetch url =
     (case fetch 0 of
        Raised \<Rightarrow> extract_first_link_loop urljoin tfu fetch url 1 [2]
      | Parsed pg \<Rightarrow>
          (case content_div pg of
             None \<Rightarrow> extract_first_link_loop urljoin tfu fetch url 1 [1]
           | Some c \<Rightarrow> \<lparr>ex_next = map_option urljoin (find_href c),
                ex_title = (case title_element pg of Some t \<Rightarrow> t | None \<Rightarrow> tfu url),
                ex_attempts = 1, ex_sleeps = []\<rparr>))"
  by (simp add: extract_first_link_def extract_first_link_loop.simps [of _ _ _ _ 0]
                max_retries_def Let_def split: response.splits option.splits)







section \<open>Claim C4\<close>

lemma scan_links_find:
  "scan_links ls
   = map_option link_href (find (\<lambda>l. is_valid_wiki_link (link_href l) \<and> \<not> in_parentheses l) ls)"
  by (induction ls) auto

lemma valid_B: "is_valid_wiki_link ''/wiki/B''"
  by (simp add: is_valid_wiki_link_def startswith_def namespaces_def)

lemma valid_C: "is_valid_wiki_link ''/wiki/C''"
  by (simp add: is_valid_wiki_link_def startswith_def namespaces_def)

lemma in_parentheses_B: "in_parentheses link_B"
  by (simp add: in_parentheses_def link_B_def Let_def)

lemma not_in_parentheses_C: "\<not> in_parentheses link_C"
  by (simp add: in_parentheses_def link_C_def Let_def)

lemma not_skip_lead: "\<not> should_skip \<lparr>blank = b, parent_classes = lead_parents, links = ls\<rparr>"
  by (simp add: should_skip_def lead_parents_def non_main_classes_def)

lemma find_href_A:
  "find_href \<lparr>select_paragraphs = [\<lparr>blank = False, parent_classes = lead_parents, links = [link_B, link_C]\<rparr>],
     direct_paragraphs = [],
     all_paragraphs = [\<lparr>blank = False, parent_classes = lead_parents, links = [link_B, link_C]\<rparr>],
     list_items = []\<rparr> = Some ''/wiki/C''"
  using valid_B valid_C in_parentheses_B not_in_parentheses_C
  by (simp add: find_href_def paragraphs_of_def not_skip_lead)
     (simp add: link_B_def link_C_def)

lemma find_href_B_only:
  "find_href \<lparr>select_paragraphs = [\<lparr>blank = False, parent_classes = lead_parents, links = [link_B]\<rparr>],
     direct_paragraphs = [],
     all_paragraphs = [\<lparr>blank = False, parent_classes = lead_parents, links = [link_B]\<rparr>],
     list_items = []\<rparr> = Some ''/wiki/B''"
  using valid_B in_parentheses_B
  by (simp add: find_href_def paragraphs_of_def not_skip_lead)
     (simp add: link_B_def)

text \<open>
  C4, as the code has it. In the scan of the lead paragraphs (the first stage), a link
  with a valid href is passed over exactly when the text of its previous siblings has
  more \<^verbatim>\<open>(\<close> than \<^verbatim>\<open>)\<close>: the scan of a paragraph returns the first link that is
  valid and not in parentheses by that count. For the lead text
  \<^verbatim>\<open>A thing (see B) relates to C.\<close> the extractor returns \<open>C\<close>.
\<close>

theorem parenthetical_exclusion:
  "scan_links ls
     = map_option link_href
         (find (\<lambda>l. is_valid_wiki_link (link_href l) \<and> \<not> in_parentheses l) ls)
   \<and> ex_next (extract_first_link wikipedia_urljoin title_from_url (always page_A) url)
     = Some ''https://en.wikipedia.org/wiki/C''"
  using scan_links_find find_href_A
  by (simp add: extract_unfold page_A_def Let_def wikipedia_urljoin_def always_def)

theorem parenthetical_exclusion_witness:
  "scan_links [link_B, link_C] = Some ''/wiki/C''"
  using parenthetical_exclusion [of "[link_B, link_C]"]
        valid_B valid_C in_parentheses_B not_in_parentheses_C
  by (simp add: link_B_def link_C_def)

text \<open>
  C4 as stated fails in the last-resort scan of all the paragraphs, which tests the href
  only: when the only link of the page is in an open parenthesis, the first stage
  passes it over and the last stage returns it.
\<close>

theorem fallback_returns_parenthesised_link:
  "is_valid_wiki_link (link_href link_B) \<and> in_parentheses link_B
   \<and> count_list (prev_text_of (previous_siblings link_B)) CHR ''('' = 1
   \<and> count_list (prev_text_of (previous_siblings link_B)) CHR '')'' = 0
   \<and> ex_next (extract_first_link wikipedia_urljoin locator_title (always page_B_only) ''A'')
     = Some ''https://en.wikipedia.org/wiki/B''"
  using valid_B in_parentheses_B find_href_B_only
  by (simp add: extract_unfold page_B_only_def Let_def wikipedia_urljoin_def link_B_def
                always_def)

section \<open>Claim C7\<close>

lemma large_step_flag: "large_step env j ph s = Some s' \<Longrightarrow> stop_flag s' = stop_flag s"
  by (cases ph) (auto simp: move_def Let_def split: if_splits)

lemma large_step_visited: "large_step env j ph s = Some s' \<Longrightarrow> visited s \<subseteq> visited s'"
  by (cases ph) (auto simp: move_def Let_def split: if_splits)

lemma large_step_jobs:
  "large_step env j ph s = Some s' \<Longrightarrow> (\<forall>i. i \<noteq> j \<longrightarrow> jobs s' i = jobs s i) \<and> jobs s' j \<noteq> None"
  by (cases ph) (auto simp: move_def Let_def split: if_splits)

lemma large_step_stored:
  "large_step env j ph s = Some s' \<Longrightarrow>
   stored_jobs s \<subseteq> stored_jobs s' \<and> stored_jobs s' \<subseteq> insert j (stored_jobs s)"
  by (cases ph) (auto simp: move_def stored_jobs_def Let_def split: if_splits)

lemma large_step_frame:
  assumes "large_step env j ph s = Some s'"
  shows "stop_flag s' = stop_flag s \<and> visited s \<subseteq> visited s'
       \<and> (\<forall>i. i \<noteq> j \<longrightarrow> jobs s' i = jobs s i) \<and> jobs s' j \<noteq> None
       \<and> stored_jobs s \<subseteq> stored_jobs s' \<and> stored_jobs s' \<subseteq> insert j (stored_jobs s)"
  using large_step_flag [OF assms] large_step_visited [OF assms] large_step_jobs [OF assms]
        large_step_stored [OF assms] by blast

lemma parallel_step_Some:
  "parallel_step env j (Started a) s = Some (move j (case a of None \<Rightarrow> Finished
     | Some article_or_url \<Rightarrow> Ready (pick_start (title_of env) (visited s) (retries_of env j)
                            (start_url_of (strip env) article_or_url)) {}) s)"
  by (cases a) simp_all

lemma parallel_step_flag: "parallel_step env j ph s = Some s' \<Longrightarrow> stop_flag s' = stop_flag s"
  by (cases ph) (auto simp: parallel_step_Some move_def Let_def split: if_splits)

lemma parallel_step_visited: "parallel_step env j ph s = Some s' \<Longrightarrow> visited s \<subseteq> visited s'"
  by (cases ph) (auto simp: parallel_step_Some move_def Let_def split: if_splits)

lemma parallel_step_jobs:
  "parallel_step env j ph s = Some s' \<Longrightarrow> (\<forall>i. i \<noteq> j \<longrightarrow> jobs s' i = jobs s i) \<and> jobs s' j \<noteq> None"
  by (cases ph) (auto simp: parallel_step_Some move_def Let_def split: if_splits)

lemma parallel_step_stored:
  "parallel_step env j ph s = Some s' \<Longrightarrow>
   stored_jobs s \<subseteq> stored_jobs s' \<and> stored_jobs s' \<subseteq> insert j (stored_jobs s)"
  by (cases ph) (auto simp: parallel_step_Some move_def stored_jobs_def Let_def split: if_splits)

lemma parallel_step_frame:
  assumes "parallel_step env j ph s = Some s'"
  shows "stop_flag s' = stop_flag s \<and> visited s \<subseteq> visited s'
       \<and> (\<forall>i. i \<noteq> j \<longrightarrow> jobs s' i = jobs s i) \<and> jobs s' j \<noteq> None
       \<and> stored_jobs s \<subseteq> stored_jobs s' \<and> stored_jobs s' \<subseteq> insert j (stored_jobs s)"
  using parallel_step_flag [OF assms] parallel_step_visited [OF assms]
        parallel_step_jobs [OF assms] parallel_step_stored [OF assms] by blast

lemma fire_frame:
  assumes "fire k env (Step j) s = Some s'"
  shows "stop_flag s' = stop_flag s \<and> visited s \<subseteq> visited s'
       \<and> (\<forall>i. i \<noteq> j \<longrightarrow> jobs s' i = jobs s i) \<and> jobs s' j \<noteq> None
       \<and> stored_jobs s \<subseteq> stored_jobs s' \<and> stored_jobs s' \<subseteq> insert j (stored_jobs s)"
proof -
  from assms obtain ph where ph: "jobs s j = Some ph" by (auto split: option.splits)
  show ?thesis
  proof (cases k)
    case ParallelWiki
    with assms ph have "parallel_step env j ph s = Some s'" by simp
    then show ?thesis by (rule parallel_step_frame)
  next
    case LargeWikiGraph
    with assms ph have "large_step env j ph s = Some s'" by simp
    then show ?thesis by (rule large_step_frame)
  qed
qed

lemma fire_step_late:
  assumes "fire k env (Step j) s = Some s'" and "late j s"
  shows "late j s'"
proof -
  from assms(2) have f: "stop_flag s" and n: "j \<notin> stored_jobs s"
    and ph: "(\<exists>a. jobs s j = Some (Accepted a)) \<or> jobs s j = Some Finished"
    by (auto simp: late_def split: option.splits phase.splits)
  from ph show ?thesis
  proof
    assume "\<exists>a. jobs s j = Some (Accepted a)"
    then obtain a where a: "jobs s j = Some (Accepted a)" ..
    with assms(1) f have "s' = move j Finished s" by (cases k) simp_all
    with f n show ?thesis by (simp add: late_def move_def stored_jobs_def)
  next
    assume "jobs s j = Some Finished"
    with assms(1) show ?thesis by (cases k) simp_all
  qed
qed

lemma fire_late:
  assumes "fire k env e s = Some s'" and "late j s"
  shows "late j s'"
proof (cases e)
  case (Seed ts)
  with assms show ?thesis by (auto simp: late_def stored_jobs_def)
next
  case SetFlag
  with assms show ?thesis by (auto simp: late_def stored_jobs_def)
next
  case (Submit i a)
  from assms(2) have "jobs s j \<noteq> None" by (auto simp: late_def split: option.splits)
  with assms Submit have "i \<noteq> j" by (auto split: option.splits)
  with assms Submit show ?thesis
    by (auto simp: late_def stored_jobs_def move_def split: option.splits)
next
  case (Step i)
  show ?thesis
  proof (cases "i = j")
    case True
    with assms Step show ?thesis using fire_step_late by blast
  next
    case False
    from fire_frame [of k env i s s'] assms(1) Step
    have "stop_flag s' = stop_flag s" "jobs s' j = jobs s j"
      "stored_jobs s' \<subseteq> insert i (stored_jobs s)" using False by auto
    with assms(2) False show ?thesis by (auto simp: late_def)
  qed
qed

lemma run_late: "run k env evs s = Some s' \<Longrightarrow> late j s \<Longrightarrow> late j s'"
proof (induction evs arbitrary: s)
  case Nil
  then show ?case by simp
next
  case (Cons e es)
  then obtain s1 where s1: "fire k env e s = Some s1" "run k env es s1 = Some s'"
    by (auto split: option.splits)
  from fire_late [OF s1(1) Cons.prems(2)] have "late j s1" .
  with Cons.IH s1(2) show ?case by blast
qed

lemma fire_flag: "fire k env e s = Some s' \<Longrightarrow> stop_flag s \<Longrightarrow> stop_flag s'"
proof (cases e)
  case (Step i)
  assume "fire k env e s = Some s'" "stop_flag s"
  with Step fire_frame [of k env i s s'] show ?thesis by simp
qed (auto simp: move_def split: option.splits)

lemma run_flag: "run k env evs s = Some s' \<Longrightarrow> stop_flag s \<Longrightarrow> stop_flag s'"
proof (induction evs arbitrary: s)
  case Nil
  then show ?case by simp
next
  case (Cons e es)
  then obtain s1 where s1: "fire k env e s = Some s1" "run k env es s1 = Some s'"
    by (auto split: option.splits)
  from fire_flag [OF s1(1) Cons.prems(2)] Cons.IH s1(2) show ?case by blast
qed

lemma run_set_flag:
  "run k env evs s = Some s' \<Longrightarrow> SetFlag \<in> set evs \<Longrightarrow> stop_flag s'"
proof (induction evs arbitrary: s)
  case Nil
  then show ?case by simp
next
  case (Cons e es)
  then obtain s1 where s1: "fire k env e s = Some s1" "run k env es s1 = Some s'"
    by (auto split: option.splits)
  show ?case
  proof (cases "e = SetFlag")
    case True
    with s1(1) have "stop_flag s1" by auto
    with run_flag s1(2) show ?thesis by blast
  next
    case False
    with Cons.prems(2) have "SetFlag \<in> set es" by simp
    with Cons.IH s1(2) show ?thesis by blast
  qed
qed

lemma fire_known:
  assumes "fire k env e s = Some s'" and "known s"
  shows "known s'"
proof (cases e)
  case (Seed ts)
  with assms(1) have "s' = s\<lparr>visited := visited s \<union> set ts\<rparr>" by simp
  with assms(2) show ?thesis by (simp add: known_def stored_jobs_def)
next
  case SetFlag
  with assms(1) have "s' = s\<lparr>stop_flag := True\<rparr>" by simp
  with assms(2) show ?thesis by (simp add: known_def stored_jobs_def)
next
  case (Submit i a)
  with assms(1) have "s' = move i (Accepted a) s" by (auto split: option.splits)
  with assms(2) show ?thesis by (simp add: known_def stored_jobs_def move_def)
next
  case (Step i)
  from fire_frame [of k env i s s'] assms(1) Step
  have o: "\<forall>j. j \<noteq> i \<longrightarrow> jobs s' j = jobs s j" and i: "jobs s' i \<noteq> None"
    and st: "stored_jobs s' \<subseteq> insert i (stored_jobs s)" by auto
  show ?thesis
    unfolding known_def
  proof (intro allI impI)
    fix j assume "j \<in> stored_jobs s'"
    with st have "j = i \<or> j \<in> stored_jobs s" by auto
    then show "jobs s' j \<noteq> None"
    proof
      assume "j = i" with i show ?thesis by simp
    next
      assume js: "j \<in> stored_jobs s"
      show ?thesis
      proof (cases "j = i")
        case True with i show ?thesis by simp
      next
        case False
        with o have "jobs s' j = jobs s j" by simp
        with assms(2) js show ?thesis by (simp add: known_def)
      qed
    qed
  qed
qed

lemma run_known: "run k env evs s = Some s' \<Longrightarrow> known s \<Longrightarrow> known s'"
proof (induction evs arbitrary: s)
  case Nil
  then show ?case by simp
next
  case (Cons e es)
  then obtain s1 where s1: "fire k env e s = Some s1" "run k env es s1 = Some s'"
    by (auto split: option.splits)
  from fire_known [OF s1(1) Cons.prems(2)] Cons.IH s1(2) show ?case by blast
qed

lemma run_append:
  "run k env (xs @ ys) s = (case run k env xs s of None \<Rightarrow> None | Some s' \<Rightarrow> run k env ys s')"
  by (induction xs arbitrary: s) (auto split: option.splits)

lemma no_store_after_stop_aux:
  assumes "run k env (pre @ Submit j a # post) initial = Some s" and "SetFlag \<in> set pre"
  shows "stop_flag s \<and> j \<notin> stored_jobs s"
proof -
  from assms(1) obtain s1 s2 where s1: "run k env pre initial = Some s1"
    and s2: "fire k env (Submit j a) s1 = Some s2" and s3: "run k env post s2 = Some s"
    by (auto simp: run_append split: option.splits)
  have "known initial" by (simp add: known_def initial_def stored_jobs_def)
  with run_known s1 have k1: "known s1" by blast
  from run_set_flag [OF s1 assms(2)] have f1: "stop_flag s1" .
  from s2 have none: "jobs s1 j = None" and s2eq: "s2 = move j (Accepted a) s1"
    by (auto split: option.splits)
  from k1 none have "j \<notin> stored_jobs s1" by (auto simp: known_def)
  with f1 s2eq have "late j s2" by (simp add: late_def move_def stored_jobs_def)
  from run_late [OF s3 this] show ?thesis by (simp add: late_def)
qed

lemma accepted_short_circuit:
  "stop_flag s \<Longrightarrow> jobs s i = Some (Accepted b) \<Longrightarrow>
   fire k env (Step i) s = Some (move i Finished s)"
  by (cases k) simp_all

lemma example_walk:
  "crawl_deeply scenario_C (\<lambda>u. u) ''R'' 5 (Some ''X'') (Some {})
   = \<lparr>dc_path = [''X'', ''Y'', ''Z''],
      dc_titles = [''X'' \<mapsto> ''x'', ''Y'' \<mapsto> ''y'', ''Z'' \<mapsto> ''z''],
      dc_visited_articles = {''Z'', ''Y'', ''X''}, dc_steps = 2,
      dc_outcome = LoopDetected (Some [''X'', ''Y'', ''Z'', ''X'']),
      dc_visited_global = Some {''Z'', ''Y'', ''X''}\<rparr>"
  by (simp add: crawl_deeply_def crawl_deeply_loop.simps crawl_deeply_step_def
                crawl_deeply_entered_def crawl_deeply_init_def dc_finish_def
                in_global_def add_global_def start_of_def scenario_C_def Let_def)

lemma example_run:
  "run LargeWikiGraph example_env
     ([Submit 1 (Some ''X''), Step 1, Step 1, Step 1, Step 1, Step 1, SetFlag]
      @ Submit 2 (Some ''Y'') # [Step 1, Step 2]) initial
   = Some \<lparr>stop_flag = True, visited = {''Z'', ''Y'', ''X''},
           stored = [(1, [''X'', ''Y'', ''Z''])],
           jobs = [1 \<mapsto> Finished, 2 \<mapsto> Finished]\<rparr>"
  by (simp add: initial_def example_env_def move_def start_of_def example_walk)

text \<open>
  C7. In every run of either controller, from the initial state and under every
  interleaving: once the flag is set it stays set, and a job submitted to the pool after
  the flag was set never leads to a call of \<^verbatim>\<open>store_path\<close>. Such a job returns at
  its first test of the flag, before any walk; and a job that finds the flag set at the
  test after its walk returns without storing.
\<close>

theorem no_store_after_stop:
  assumes "run k env (pre @ Submit j a # post) initial = Some s" and "SetFlag \<in> set pre"
  shows "stop_flag s \<and> j \<notin> stored_jobs s
       \<and> (\<forall>evs s1 s2. stop_flag s1 \<and> run k env evs s1 = Some s2 \<longrightarrow> stop_flag s2)
       \<and> (\<forall>i b s1. stop_flag s1 \<and> jobs s1 i = Some (Accepted b) \<longrightarrow>
             fire k env (Step i) s1 = Some (move i Finished s1))
       \<and> (\<forall>i p ts s1. stop_flag s1 \<and> jobs s1 i = Some (Merged p ts) \<longrightarrow>
             fire LargeWikiGraph env (Step i) s1 = Some (move i Finished s1))
       \<and> (\<forall>i p ts v s1. stop_flag s1 \<and> jobs s1 i = Some (Crawled p ts v) \<longrightarrow>
             fire ParallelWiki env (Step i) s1 = Some (move i Finished s1))"
proof -
  have 1: "stop_flag s \<and> j \<notin> stored_jobs s" by (rule no_store_after_stop_aux [OF assms])
  have 2: "\<forall>evs s1 s2. stop_flag s1 \<and> run k env evs s1 = Some s2 \<longrightarrow> stop_flag s2"
    using run_flag by blast
  have 3: "\<forall>i b s1. stop_flag s1 \<and> jobs s1 i = Some (Accepted b) \<longrightarrow>
             fire k env (Step i) s1 = Some (move i Finished s1)"
    using accepted_short_circuit by blast
  have 4: "\<forall>i p ts s1. stop_flag s1 \<and> jobs s1 i = Some (Merged p ts) \<longrightarrow>
             fire LargeWikiGraph env (Step i) s1 = Some (move i Finished s1)" by simp
  have 5: "\<forall>i p ts v s1. stop_flag s1 \<and> jobs s1 i = Some (Crawled p ts v) \<longrightarrow>
             fire ParallelWiki env (Step i) s1 = Some (move i Finished s1)" by simp
  from 1 2 3 4 5 show ?thesis by blast
qed

theorem no_store_after_stop_witness:
  "run LargeWikiGraph example_env
     ([Submit 1 (Some ''X''), Step 1, Step 1, Step 1, Step 1, Step 1, SetFlag]
      @ Submit 2 (Some ''Y'') # [Step 1, Step 2]) initial
   = Some \<lparr>stop_flag = True, visited = {''Z'', ''Y'', ''X''},
           stored = [(1, [''X'', ''Y'', ''Z''])],
           jobs = [1 \<mapsto> Finished, 2 \<mapsto> Finished]\<rparr>
   \<and> SetFlag \<in> set [Submit 1 (Some ''X''), Step 1, Step 1, Step 1, Step 1, Step 1, SetFlag]
   \<and> 2 \<notin> stored_jobs \<lparr>stop_flag = True, visited = {''Z'', ''Y'', ''X''},
           stored = [(1, [''X'', ''Y'', ''Z''])],
           jobs = [1 \<mapsto> Finished, 2 \<mapsto> Finished]\<rparr>"
proof -
  have m: "SetFlag \<in> set [Submit 1 (Some ''X''), Step 1, Step 1, Step 1, Step 1, Step 1, SetFlag]"
    by simp
  from no_store_after_stop [OF example_run m] example_run m show ?thesis by blast
qed

section \<open>Claim C8\<close>

lemma crawl_deeply_step_Inl_visited:
  assumes "crawl_deeply_step ext gt w = Inl (oc, w')"
  shows "visited_articles w' = visited_articles w"
proof -
  obtain next_url current_title where e: "ext (steps w) (current_url w) = (next_url, current_title)"
    by (cases "ext (steps w) (current_url w)")
  show ?thesis
  proof (cases next_url)
    case None
    with assms e show ?thesis by (auto simp: crawl_deeply_step_def Let_def)
  next
    case (Some n)
    with assms e show ?thesis
      by (auto simp: crawl_deeply_step_def Let_def split: if_splits)
  qed
qed

lemma crawl_deeply_loop_finite:
  assumes "finite (visited_articles w)"
  shows "finite (visited_articles (snd (crawl_deeply_loop ext gt max_steps w)))"
proof (rule crawl_deeply_loop_rule [where I = "\<lambda>w. finite (visited_articles w)"])
  show "finite (visited_articles w)" by (rule assms)
next
  fix w w' :: deep_walker
  assume f: "finite (visited_articles w)" and "crawl_deeply_step ext gt w = Inr w'"
  from crawl_deeply_step_Inr [OF this(2)] obtain n
    where "visited_articles w' = insert (gt n) (visited_articles w)" by blast
  with f show "finite (visited_articles w')" by simp
next
  fix w :: deep_walker and r
  assume f: "finite (visited_articles w)" and ex: "crawl_deeply_step ext gt w = Inl r"
  obtain oc w' where r: "r = (oc, w')" by (cases r)
  from crawl_deeply_step_Inl_visited [of ext gt w oc w'] ex r f
  show "finite (visited_articles (snd r))" by simp
next
  fix w :: deep_walker
  assume "finite (visited_articles w)"
  then show "finite (visited_articles (snd (StepLimitReached, w)))" by simp
qed

lemma crawl_deeply_finite:
  "finite (dc_visited_articles (crawl_deeply ext gt random_article max_steps start_url vg))"
proof (cases "in_global vg (gt (start_of random_article start_url))")
  case True
  then show ?thesis by (simp add: crawl_deeply_def dc_finish_def crawl_deeply_init_def)
next
  case False
  define w0 where "w0 = crawl_deeply_entered gt (start_of random_article start_url) vg"
  obtain oc w where r: "crawl_deeply_loop ext gt max_steps w0 = (oc, w)"
    by (cases "crawl_deeply_loop ext gt max_steps w0")
  have "finite (visited_articles w0)"
    by (simp add: w0_def crawl_deeply_entered_def crawl_deeply_init_def)
  from crawl_deeply_loop_finite [OF this, of ext gt max_steps] r
  have "finite (visited_articles w)" by simp
  with r False show ?thesis by (simp add: crawl_deeply_def dc_finish_def Let_def w0_def)
qed

lemma finite_sets_move:
  assumes "finite_sets s" and "\<And>p ts v. ph = Crawled p ts v \<Longrightarrow> finite v"
  shows "finite_sets (move j ph s)"
  unfolding finite_sets_def move_def
proof (intro conjI allI impI)
  show "finite (visited (s\<lparr>jobs := (jobs s)(j \<mapsto> ph)\<rparr>))"
    using assms(1) by (simp add: finite_sets_def)
next
  fix i p ts v
  assume a: "jobs (s\<lparr>jobs := (jobs s)(j \<mapsto> ph)\<rparr>) i = Some (Crawled p ts v)"
  show "finite v"
  proof (cases "i = j")
    case True
    with a have "ph = Crawled p ts v" by simp
    then show ?thesis by (rule assms(2))
  next
    case False
    with a have "jobs s i = Some (Crawled p ts v)" by simp
    with assms(1) show ?thesis unfolding finite_sets_def by blast
  qed
qed

lemma finite_sets_visited:
  "finite_sets s \<Longrightarrow> finite v \<Longrightarrow> finite_sets (s\<lparr>visited := visited s \<union> v\<rparr>)"
  by (simp add: finite_sets_def)

lemma finite_sets_stored: "finite_sets (s\<lparr>stored := x\<rparr>) = finite_sets s"
  by (simp add: finite_sets_def)

lemma large_step_finite:
  assumes "large_step env j ph s = Some s'" and "jobs s j = Some ph" and "finite_sets s"
  shows "finite_sets s'"
proof (cases ph)
  case (Accepted a)
  with assms(1) have "s' = move j Finished s \<or> s' = move j (Started a) s"
    by (auto split: if_splits)
  then show ?thesis using finite_sets_move [OF assms(3)] by auto
next
  case (Started a)
  with assms(1) have "s' = move j (Ready (start_of (random_of env j) a) (visited s)) s" by simp
  then show ?thesis using finite_sets_move [OF assms(3)] by auto
next
  case (Ready u snapshot)
  with assms(1) obtain p ts v where s': "s' = move j (Crawled p ts v) s" and "finite v"
    using crawl_deeply_finite by (auto simp: Let_def)
  then show ?thesis using finite_sets_move [OF assms(3)] by auto
next
  case (Crawled p ts v)
  with assms(2,3) have "finite v" unfolding finite_sets_def by blast
  from finite_sets_visited [OF assms(3) this]
  have "finite_sets (move j (Merged p ts) (s\<lparr>visited := visited s \<union> v\<rparr>))"
    by (rule finite_sets_move) simp
  with assms(1) Crawled show ?thesis by simp
next
  case (Merged p ts)
  with assms(1) have "s' = move j Finished s \<or> s' = move j (Storing p ts) s"
    by (auto split: if_splits)
  then show ?thesis using finite_sets_move [OF assms(3)] by auto
next
  case (Storing p ts)
  with assms(1) have "s' = move j Finished (s\<lparr>stored := stored s @ [(j, p)]\<rparr>)
      \<or> s' = move j Finished s" by (auto split: if_splits)
  then show ?thesis
    using finite_sets_move [OF assms(3)]
          finite_sets_move [of "s\<lparr>stored := stored s @ [(j, p)]\<rparr>" Finished j]
          assms(3) finite_sets_stored by auto
next
  case (Stored p ts)
  with assms(1) show ?thesis by simp
next
  case Finished
  with assms(1) show ?thesis by simp
qed

lemma parallel_step_finite:
  assumes "parallel_step env j ph s = Some s'" and "jobs s j = Some ph" and "finite_sets s"
  shows "finite_sets s'"
proof (cases ph)
  case (Accepted a)
  with assms(1) have "s' = move j Finished s \<or> s' = move j (Started a) s"
    by (auto split: if_splits)
  then show ?thesis using finite_sets_move [OF assms(3)] by auto
next
  case (Started a)
  with assms(1) obtain ph' where "s' = move j ph'  s" "ph' = Finished \<or> (\<exists>u. ph' = Ready u {})"
    by (cases a) auto
  then show ?thesis using finite_sets_move [OF assms(3)] by auto
next
  case (Ready u snapshot)
  with assms(1) obtain p ts where s': "s' = move j (Crawled p ts {}) s"
    by (auto simp: Let_def)
  then show ?thesis using finite_sets_move [OF assms(3)] by auto
next
  case (Crawled p ts v)
  with assms(1) have "s' = move j Finished s \<or> s' = move j (Storing p ts) s"
    by (auto split: if_splits)
  then show ?thesis using finite_sets_move [OF assms(3)] by auto
next
  case (Merged p ts)
  with assms(1) show ?thesis by simp
next
  case (Storing p ts)
  with assms(1) have "s' = move j (Stored p ts) (s\<lparr>stored := stored s @ [(j, p)]\<rparr>)
      \<or> s' = move j Finished s" by (auto split: if_splits)
  then show ?thesis
    using finite_sets_move [OF assms(3)]
          finite_sets_move [of "s\<lparr>stored := stored s @ [(j, p)]\<rparr>" "Stored p ts" j]
          assms(3) finite_sets_stored by auto
next
  case (Stored p ts)
  have "finite (set (path_titles (title_of env) ts p))" by simp
  from finite_sets_visited [OF assms(3) this]
  have "finite_sets (move j Finished
          (s\<lparr>visited := visited s \<union> set (path_titles (title_of env) ts p)\<rparr>))"
    by (rule finite_sets_move) simp
  with assms(1) Stored show ?thesis by simp
next
  case Finished
  with assms(1) show ?thesis by simp
qed

lemma fire_finite:
  assumes "fire k env e s = Some s'" and "finite_sets s"
  shows "finite_sets s'"
proof (cases e)
  case (Seed ts)
  with assms(1) have "s' = s\<lparr>visited := visited s \<union> set ts\<rparr>" by simp
  with assms(2) show ?thesis by (simp add: finite_sets_def)
next
  case SetFlag
  with assms(1) have "s' = s\<lparr>stop_flag := True\<rparr>" by simp
  with assms(2) show ?thesis by (simp add: finite_sets_def)
next
  case (Submit i a)
  with assms(1) have "s' = move i (Accepted a) s" by (auto split: option.splits)
  with assms(2) show ?thesis by (simp add: finite_sets_def move_def)
next
  case (Step i)
  with assms(1) obtain ph where ph: "jobs s i = Some ph" by (auto split: option.splits)
  show ?thesis
  proof (cases k)
    case ParallelWiki
    with assms(1) Step ph have "parallel_step env i ph s = Some s'" by simp
    from parallel_step_finite [OF this ph assms(2)] show ?thesis .
  next
    case LargeWikiGraph
    with assms(1) Step ph have "large_step env i ph s = Some s'" by simp
    from large_step_finite [OF this ph assms(2)] show ?thesis .
  qed
qed

lemma run_finite: "run k env evs s = Some s' \<Longrightarrow> finite_sets s \<Longrightarrow> finite_sets s'"
proof (induction evs arbitrary: s)
  case Nil
  then show ?case by simp
next
  case (Cons e es)
  then obtain s1 where s1: "fire k env e s = Some s1" "run k env es s1 = Some s'"
    by (auto split: option.splits)
  from fire_finite [OF s1(1) Cons.prems(2)] Cons.IH s1(2) show ?case by blast
qed

lemma fire_visited: "fire k env e s = Some s' \<Longrightarrow> visited s \<subseteq> visited s'"
proof (cases e)
  case (Step i)
  assume "fire k env e s = Some s'"
  with Step fire_frame [of k env i s s'] show ?thesis by simp
qed (auto simp: move_def split: option.splits)

lemma run_visited: "run k env evs s = Some s' \<Longrightarrow> visited s \<subseteq> visited s'"
proof (induction evs arbitrary: s)
  case Nil
  then show ?case by simp
next
  case (Cons e es)
  then obtain s1 where s1: "fire k env e s = Some s1" "run k env es s1 = Some s'"
    by (auto split: option.splits)
  from fire_visited [OF s1(1)] Cons.IH [OF s1(2)] show ?case by blast
qed

text \<open>
  C8. In every run of either controller and under every interleaving, the set of known
  titles only grows: every event (the seeding from the database, the merge of a job, and
  every other action) leaves each title of the set in it, so between any two states of a
  run the earlier set is included in the later one, and its size, which is finite, is
  not above the later size.
\<close>

theorem visited_only_grows:
  assumes "run k env evs1 initial = Some s1" and "run k env evs2 s1 = Some s2"
  shows "visited s1 \<subseteq> visited s2 \<and> finite (visited s2)
       \<and> card (visited s1) \<le> card (visited s2)
       \<and> (\<forall>e s s'. fire k env e s = Some s' \<longrightarrow> visited s \<subseteq> visited s')"
proof -
  have "finite_sets initial" by (simp add: finite_sets_def initial_def)
  from run_finite [OF assms(1) this] have "finite_sets s1" .
  from run_finite [OF assms(2) this] have f: "finite (visited s2)" by (simp add: finite_sets_def)
  from run_visited [OF assms(2)] have m: "visited s1 \<subseteq> visited s2" .
  from card_mono [OF f m] f m fire_visited show ?thesis by blast
qed

theorem visited_only_grows_witness:
  "run LargeWikiGraph example_env [Seed [''Y'', ''W'']] initial
     = Some \<lparr>stop_flag = False, visited = {''Y'', ''W''}, stored = [], jobs = Map.empty\<rparr>
   \<and> run LargeWikiGraph example_env
        [Submit 1 (Some ''X''), Step 1, Step 1, Step 1, Step 1]
        \<lparr>stop_flag = False, visited = {''Y'', ''W''}, stored = [], jobs = Map.empty\<rparr>
     = Some \<lparr>stop_flag = False, visited = {''Y'', ''W'', ''X''}, stored = [],
             jobs = [1 \<mapsto> Merged [''X'', ''Y''] [''X'' \<mapsto> ''x'', ''Y'' \<mapsto> ''Y'']]\<rparr>
   \<and> card {''Y'', ''W''} \<le> card {''Y'', ''W'', ''X''}"
proof -
  have a: "run LargeWikiGraph example_env [Seed [''Y'', ''W'']] initial
     = Some \<lparr>stop_flag = False, visited = {''Y'', ''W''}, stored = [], jobs = Map.empty\<rparr>"
    by (simp add: initial_def)
  have w: "crawl_deeply scenario_C (\<lambda>u. u) ''R'' 5 (Some ''X'') (Some {''Y'', ''W''})
     = \<lparr>dc_path = [''X'', ''Y''], dc_titles = [''X'' \<mapsto> ''x'', ''Y'' \<mapsto> ''Y''],
        dc_visited_articles = {''X''}, dc_steps = 0, dc_outcome = AlreadyKnown,
        dc_visited_global = Some {''X'', ''Y'', ''W''}\<rparr>"
    by (simp add: crawl_deeply_def crawl_deeply_loop.simps crawl_deeply_step_def
                  crawl_deeply_entered_def crawl_deeply_init_def dc_finish_def
                  in_global_def add_global_def start_of_def scenario_C_def Let_def)
  have b: "run LargeWikiGraph example_env
        [Submit 1 (Some ''X''), Step 1, Step 1, Step 1, Step 1]
        \<lparr>stop_flag = False, visited = {''Y'', ''W''}, stored = [], jobs = Map.empty\<rparr>
     = Some \<lparr>stop_flag = False, visited = {''Y'', ''W'', ''X''}, stored = [],
             jobs = [1 \<mapsto> Merged [''X'', ''Y''] [''X'' \<mapsto> ''x'', ''Y'' \<mapsto> ''Y'']]\<rparr>"
    by (simp add: example_env_def move_def start_of_def w insert_commute)
  from visited_only_grows [OF a b] a b show ?thesis by simp
qed

section \<open>Claim C3\<close>

lemma follow_general_path_loop_len:
  assumes "int (length (path w)) = steps w + 1"
  shows "int (length (path (snd (follow_general_path_loop ext target_depth max_steps w))))
         = steps (snd (follow_general_path_loop ext target_depth max_steps w)) + 1"
proof (rule follow_general_path_loop_rule
        [where I = "\<lambda>w. int (length (path w)) = steps w + 1"])
  show "int (length (path w)) = steps w + 1" by (rule assms)
next
  fix w w' :: general_walker
  assume "int (length (path w)) = steps w + 1"
    "follow_general_path_step ext target_depth w = Inr w'"
  then show "int (length (path w')) = steps w' + 1" by (rule follow_general_path_step_len)
next
  fix w :: general_walker and r
  assume "int (length (path w)) = steps w + 1"
    and "follow_general_path_step ext target_depth w = Inl r"
  with follow_general_path_step_exit [of ext target_depth w r]
  show "int (length (path (snd r))) = steps (snd r) + 1" by simp
next
  fix w :: general_walker
  assume "int (length (path w)) = steps w + 1"
  then show "int (length (path (snd (StepLimitReached, w)))) = steps (snd (StepLimitReached, w)) + 1"
    by simp
qed

lemma follow_general_path_steps:
  "gp_steps (follow_general_path ext random_article target_depth max_steps start_url)
   = int (length (gp_path (follow_general_path ext random_article target_depth max_steps start_url))) - 1"
proof -
  define w0 :: general_walker where "w0 = \<lparr>current_url = start_of random_article start_url,
     path = [start_of random_article start_url], titles = Map.empty, steps = 0,
     visited_in_path = {start_of random_article start_url}\<rparr>"
  obtain oc w where r: "follow_general_path_loop ext target_depth max_steps w0 = (oc, w)"
    by (cases "follow_general_path_loop ext target_depth max_steps w0")
  have "int (length (path w0)) = steps w0 + 1" by (simp add: w0_def)
  from follow_general_path_loop_len [OF this, of ext target_depth max_steps] r
  have "int (length (path w)) = steps w + 1" by simp
  with r show ?thesis by (simp add: follow_general_path_def Let_def w0_def)
qed

text \<open>
  C3, as the code has it. At every exit of \<^verbatim>\<open>follow_path\<close> and of
  \<^verbatim>\<open>follow_general_path\<close> the step counter is the number of elements of the path
  minus one. At every exit of \<^verbatim>\<open>crawl_deeply\<close> but one it is so too; at the exit
  for a next article that is already known, the link is appended and the counter is not
  incremented, so the counter is the number of elements of the path minus two.
\<close>

theorem step_counter_and_path_length:
  fixes ext ext' ext'' :: extractor
    and random_article random_article' random_article'' :: url
    and start_url start_url' start_url'' :: "url option"
    and max_steps max_steps' max_steps'' target_depth :: int
    and gt :: "url \<Rightarrow> title"
    and vg :: "title set option"
  defines "F \<equiv> follow_path ext random_article start_url max_steps"
    and "G \<equiv> follow_general_path ext' random_article' target_depth max_steps' start_url'"
    and "D \<equiv> crawl_deeply ext'' gt random_article'' max_steps'' start_url'' vg"
  shows "fp_steps F = int (length (fp_path F)) - 1
       \<and> gp_steps G = int (length (gp_path G)) - 1
       \<and> dc_steps D = int (length (dc_path D)) - 1
                        - (if dc_outcome D = AlreadyKnown then 1 else 0)"
proof -
  have "fp_steps F = int (length (fp_path F)) - 1"
    unfolding F_def using follow_path_steps [of ext random_article start_url max_steps]
    by (simp add: reported_steps_def)
  moreover have "gp_steps G = int (length (gp_path G)) - 1"
    unfolding G_def by (rule follow_general_path_steps)
  moreover have "dc_steps D = int (length (dc_path D)) - 1
                        - (if dc_outcome D = AlreadyKnown then 1 else 0)"
    unfolding D_def
    using crawl_deeply_steps [of ext'' gt random_article'' max_steps'' start_url'' vg]
    by (simp add: reported_steps_def)
  ultimately show ?thesis by blast
qed

theorem step_counter_and_path_length_witness:
  "fp_steps (follow_path scenario_C ''R'' (Some ''X'') 5) = 3
   \<and> int (length (fp_path (follow_path scenario_C ''R'' (Some ''X'') 5))) - 1 = 3
   \<and> gp_steps (follow_general_path scenario_C ''R'' 10 5 (Some ''X'')) = 2
   \<and> int (length (gp_path (follow_general_path scenario_C ''R'' 10 5 (Some ''X'')))) - 1 = 2
   \<and> dc_outcome (crawl_deeply scenario_C locator_title ''R'' 5 (Some ''X'') (Some {}))
       = LoopDetected (Some [''X'', ''Y'', ''Z'', ''X''])
   \<and> dc_steps (crawl_deeply scenario_C locator_title ''R'' 5 (Some ''X'') (Some {})) = 2
   \<and> int (length (dc_path (crawl_deeply scenario_C locator_title ''R'' 5 (Some ''X'') (Some {})))) - 1
       = 2"
  using step_counter_and_path_length
          [where ext = scenario_C and random_article = "''R''" and start_url = "Some ''X''"
             and max_steps = 5 and ext' = scenario_C and random_article' = "''R''"
             and target_depth = 10 and max_steps' = 5 and start_url' = "Some ''X''"
             and ext'' = scenario_C and gt = locator_title and random_article'' = "''R''"
             and max_steps'' = 5 and start_url'' = "Some ''X''" and vg = "Some {}"]
  by (simp add: follow_path_def start_of_def follow_path_loop.simps
                follow_path_step_def Let_def scenario_C_def
                follow_general_path_def follow_general_path_loop.simps
                follow_general_path_step_def
                crawl_deeply_def crawl_deeply_loop.simps crawl_deeply_step_def
                crawl_deeply_entered_def crawl_deeply_init_def dc_finish_def
                in_global_def add_global_def locator_title_def)

text \<open>
  C3 as stated fails for \<^verbatim>\<open>crawl_deeply\<close> at the outcome \<open>AlreadyKnown\<close>: on the
  chain \<open>X \<rightarrow> Y \<rightarrow> Z\<close> with \<open>Z\<close> in the supplied set, the path has three elements and
  the counter is 1.
\<close>

theorem deep_counter_misses_known_edge:
  "dc_outcome (crawl_deeply scenario_C locator_title ''R'' 5 (Some ''X'') (Some {''Z''}))
     = AlreadyKnown
   \<and> dc_path (crawl_deeply scenario_C locator_title ''R'' 5 (Some ''X'') (Some {''Z''}))
     = [''X'', ''Y'', ''Z'']
   \<and> dc_steps (crawl_deeply scenario_C locator_title ''R'' 5 (Some ''X'') (Some {''Z''})) = 1
   \<and> dc_steps (crawl_deeply scenario_C locator_title ''R'' 5 (Some ''X'') (Some {''Z''}))
     \<noteq> int (length (dc_path (crawl_deeply scenario_C locator_title ''R'' 5 (Some ''X'')
                                  (Some {''Z''})))) - 1"
  by (simp add: crawl_deeply_def crawl_deeply_loop.simps crawl_deeply_step_def
                crawl_deeply_entered_def crawl_deeply_init_def dc_finish_def
                in_global_def add_global_def start_of_def scenario_C_def
                locator_title_def Let_def)

end
